theory Spec2Isabelle
  imports Complex_Main "HOL-Library.AList"
begin

section \<open>The shared person counter\<close>

text \<open>
  \<^verbatim>\<open>
  class ThreadSafeCounter:
      def __init__(self):
          self._value = 0
          self._lock = threading.Lock()
      def increment(self):
          with self._lock:
              self._value += 1
              return self._value
  \<close>
  The counter starts at 0 and is only ever incremented, so its value is a natural number.
  \<open>increment\<close> is the body of the method as one step: the new counter and the value
  returned.
\<close>

record ThreadSafeCounter =
  c_value :: nat

definition init_counter :: ThreadSafeCounter where
  "init_counter = \<lparr>c_value = 0\<rparr>"

definition increment :: "ThreadSafeCounter \<Rightarrow> nat \<times> ThreadSafeCounter" where
  "increment c = (let c' = c\<lparr>c_value := c_value c + 1\<rparr> in (c_value c', c'))"

subsection \<open>Threads calling \<open>increment\<close>\<close>

text \<open>
  What one call does, instruction by instruction, when several threads share the counter.
  A thread outside a call is \<open>Idle\<close>; entering the \<^verbatim>\<open>with\<close> block it takes the lock,
  which it can only do while no thread holds it; \<^verbatim>\<open>self._value += 1\<close> is a read
  (\<open>Loaded v\<close> holds the value read) followed by a write of \<open>v + 1\<close>; the
  \<^verbatim>\<open>return self._value\<close> reads the attribute again (\<open>Read r\<close>); leaving the block
  releases the lock and hands \<open>r\<close> to the caller. \<open>returned\<close> is the list of the values
  handed out so far, oldest first.
\<close>

datatype pc = Idle | Locked | Loaded nat | Stored | Read nat

record threads =
  shared :: ThreadSafeCounter
  lock :: "nat option"
  pcs :: "nat \<Rightarrow> pc"
  returned :: "nat list"


text \<open>One instruction of thread \<open>t\<close>; \<open>None\<close> when \<open>t\<close> waits for the lock.\<close>

definition thread_step :: "threads \<Rightarrow> nat \<Rightarrow> threads option" where
  "thread_step s t =
     (case pcs s t of
        Idle \<Rightarrow>
          (if lock s = None then Some (s\<lparr>lock := Some t, pcs := (pcs s)(t := Locked)\<rparr>)
           else None)
      | Locked \<Rightarrow> Some (s\<lparr>pcs := (pcs s)(t := Loaded (c_value (shared s)))\<rparr>)
      | Loaded v \<Rightarrow>
          Some (s\<lparr>shared := (shared s)\<lparr>c_value := v + 1\<rparr>, pcs := (pcs s)(t := Stored)\<rparr>)
      | Stored \<Rightarrow> Some (s\<lparr>pcs := (pcs s)(t := Read (c_value (shared s)))\<rparr>)
      | Read r \<Rightarrow>
          Some (s\<lparr>lock := None, pcs := (pcs s)(t := Idle), returned := returned s @ [r]\<rparr>))"

text \<open>
  A run under a schedule: the list of the threads the scheduler picks, one instruction
  each. Picking a thread that waits for the lock changes nothing.
\<close>

fun run_threads :: "threads \<Rightarrow> nat list \<Rightarrow> threads" where
  "run_threads s [] = s"
| "run_threads s (t # ts) =
     (case thread_step s t of None \<Rightarrow> run_threads s ts | Some s' \<Rightarrow> run_threads s' ts)"

section \<open>The worker on one video\<close>

subsection \<open>What the worker is given\<close>

text \<open>
  \<open>process_single_video\<close> calls the video decoder, the person tracker, the t-shirt
  model, the clock and the file system. A run is modelled against a script of what these
  answer: the fields below whose names start with \<open>env_\<close> are not data of the program
  but the answer of the outside world at the place where the program asks.

  Faults are the exceptions that can leave the frame loop: the tracker or the t-shirt
  model raising, \<^verbatim>\<open>tshirt_results[0]\<close> on an empty list, and the division by
  \<^verbatim>\<open>total_frames\<close> in the progress report. Loading the models, creating directories and
  writing files are taken to succeed.
\<close>

datatype fault = TrackFault | ClassifyFault | IndexError | ZeroDivisionError | ValueError

record tshirt_box =
  t_conf :: real
  t_cls :: int

text \<open>
  One element of \<^verbatim>\<open>tshirt_model(person_roi)\<close>: its boxes (or \<^verbatim>\<open>None\<close>), its \<^verbatim>\<open>names\<close>
  dictionary when it has the attribute, and whether \<^verbatim>\<open>plot()\<close> gives an image.
\<close>

record tshirt_result =
  t_boxes :: "tshirt_box list option"
  t_names :: "(int \<times> string) list option"
  t_plot :: bool

text \<open>
  A tracked box: \<^verbatim>\<open>box.conf[0]\<close>, \<^verbatim>\<open>int(box.cls[0])\<close> and \<^verbatim>\<open>map(int, box.xyxy[0])\<close>.
  \<open>env_others\<close> is the number of \<open>increment\<close> calls other workers complete on the shared
  counter after this worker's previous call and before the call made for this box;
  \<open>env_tshirt\<close> is what the t-shirt model does on the crop of this box; \<open>env_now\<close> is
  the clock's reading formatted at line 139.
\<close>

record box =
  conf :: real
  cls :: int
  xyxy :: "int \<times> int \<times> int \<times> int"
  env_others :: nat
  env_tshirt :: "fault + tshirt_result list"
  env_now :: string

text \<open>One element of the tracker's answer: \<^verbatim>\<open>result.boxes\<close> and \<^verbatim>\<open>result.boxes.id\<close>.\<close>

record result =
  boxes :: "box list option"
  ids :: "int list option"

text \<open>
  A decoded frame: \<^verbatim>\<open>frame.shape[0]\<close> and \<^verbatim>\<open>frame.shape[1]\<close> (rows and columns), whether
  five seconds have passed since the last progress report when the frame is sampled, and
  what \<^verbatim>\<open>person_model.track(frame, persist=True)\<close> does on it.
\<close>

record frame =
  shape :: "nat \<times> nat"
  env_progress_due :: bool
  env_track :: "fault + result list"

text \<open>
  The video behind a path: whether it opens, \<^verbatim>\<open>CAP_PROP_FRAME_COUNT\<close>, the frames
  \<^verbatim>\<open>read()\<close> delivers before it answers \<^verbatim>\<open>ret = False\<close> (a file: finitely many),
  \<^verbatim>\<open>Path(video_path).stem\<close>, the clock's reading in the name of the results file, and
  the instant at which the worker's task settles (used by the orchestrator only).
\<close>

record video =
  isOpened :: bool
  total_frames :: int
  frames :: "frame list"
  env_stem :: string
  env_finished :: string
  env_settled :: nat

text \<open>
  Paths are lists of components, \<^verbatim>\<open>os.path.join(d, n)\<close> being \<open>d @ [n]\<close>. A file name
  is kept as the values the program formats into it: global person number, track id,
  frame number and timestamp for the two images; video name and timestamp for the results
  file of a video; the timestamp for the combined results.
\<close>

type_synonym path = "string list"

datatype file_name =
    Person_jpg nat int nat string
  | Annotated_jpg nat int nat string
  | Results_json string string
  | Combined_results_json string

datatype tshirt_class = Name string | Class_n int | Tshirt_class_n int

text \<open>The dictionary \<^verbatim>\<open>detection_data\<close> of lines 153 to 167.\<close>

record detection_data =
  dd_video_file :: string
  global_person_number :: nat
  track_id :: int
  local_person_number :: nat
  first_detected_frame :: nat
  timestamp :: string
  person_confidence :: real
  bounding_box :: "int \<times> int \<times> int \<times> int"
  tshirt_detections :: "(tshirt_class \<times> real) list"
  person_image :: file_name
  annotated_image :: "file_name option"

text \<open>
  The dictionary \<^verbatim>\<open>result_summary\<close> of lines 182 to 197, without \<^verbatim>\<open>processing_info\<close>
  (wall-clock durations).
\<close>

record video_result =
  video_file :: string
  video_name :: string
  total_unique_people_detected :: nat
  total_frames_processed :: nat
  tracking_ids_detected :: "int list"
  r_detection_results :: "detection_data list"
  output_directory :: path

text \<open>
  The variables of the frame loop (\<open>detection_results\<close>, \<open>tracked_people\<close>,
  \<open>local_person_count\<close>, \<open>frame_number\<close>) together with what the run has done to the
  world so far: the shared counter, the values \<open>increment\<close> returned to this worker
  (\<open>issued\<close>), the frame numbers offered to the tracker (\<open>track_calls\<close>), the files
  written, the directories created and whether the video stream is open.
  \<open>tracked_people\<close> is a Python dictionary: an association list in insertion order.
\<close>

record state =
  detection_results :: "detection_data list"
  tracked_people :: "(int \<times> detection_data) list"
  local_person_count :: nat
  frame_number :: nat
  counter :: ThreadSafeCounter
  issued :: "nat list"
  track_calls :: "nat list"
  written :: "(path \<times> file_name) list"
  dirs :: "path list"
  stream_open :: bool

subsection \<open>The loop bodies\<close>

text \<open>The increments of the other workers: \<open>n\<close> completed calls of \<open>increment\<close>.\<close>

definition others_increment :: "nat \<Rightarrow> ThreadSafeCounter \<Rightarrow> ThreadSafeCounter" where
  "others_increment n c = ((\<lambda>c. snd (increment c)) ^^ n) c"

text \<open>
  The length of the Python slice \<^verbatim>\<open>a:b\<close> of an axis of length \<open>n\<close>: a negative bound
  counts from the end, and both bounds are clipped to the axis.
\<close>

definition py_slice_len :: "nat \<Rightarrow> int \<Rightarrow> int \<Rightarrow> nat" where
  "py_slice_len n a b =
     (let start = (if a < 0 then max (a + int n) 0 else min a (int n));
          stop = (if b < 0 then max (b + int n) 0 else min b (int n))
      in nat (stop - start))"

text \<open>\<^verbatim>\<open>person_roi = frame[y1:y2, x1:x2]\<close>: its \<^verbatim>\<open>shape[0]\<close> and \<^verbatim>\<open>shape[1]\<close>.\<close>

definition roi_shape :: "frame \<Rightarrow> int \<times> int \<times> int \<times> int \<Rightarrow> nat \<times> nat" where
  "roi_shape fr bb =
     (case bb of (x1, y1, x2, y2) \<Rightarrow>
        (py_slice_len (fst (shape fr)) y1 y2, py_slice_len (snd (shape fr)) x1 x2))"

text \<open>Lines 127 to 131: the class name of a t-shirt box.\<close>

definition tshirt_class_of :: "tshirt_result \<Rightarrow> tshirt_box \<Rightarrow> tshirt_class" where
  "tshirt_class_of r tb =
     (case t_names r of
        Some (n # ns) \<Rightarrow>
          (case map_of (n # ns) (t_cls tb) of
             Some nm \<Rightarrow> Name nm
           | None \<Rightarrow> Class_n (t_cls tb))
      | _ \<Rightarrow> Tshirt_class_n (t_cls tb))"

text \<open>Lines 122 to 136: the list \<^verbatim>\<open>tshirt_info\<close>.\<close>

definition tshirt_info :: "tshirt_result \<Rightarrow> (tshirt_class \<times> real) list" where
  "tshirt_info r =
     (case t_boxes r of
        None \<Rightarrow> []
      | Some tbs \<Rightarrow>
          map (\<lambda>tb. (tshirt_class_of r tb, t_conf tb)) (filter (\<lambda>tb. t_conf tb > 0.3) tbs))"

text \<open>
  Lines 98 to 173: the body of the loop over \<^verbatim>\<open>zip(result.boxes, result.boxes.id)\<close>.
  A fault is returned with the state at the moment it is raised.
\<close>

definition box_body ::
  "string \<Rightarrow> path \<Rightarrow> frame \<Rightarrow> state \<Rightarrow> box \<times> int \<Rightarrow> (fault \<times> state) + state" where
  "box_body vname out_dir fr s bt =
     (case bt of (b, tid) \<Rightarrow>
        if conf b > 0.4 \<and> cls b = 0 then
          if tid \<in> set (map fst (tracked_people s)) then Inr s
          else
            (case increment (others_increment (env_others b) (counter s)) of
               (g, c) \<Rightarrow>
                 let s1 = s\<lparr>local_person_count := local_person_count s + 1,
                            counter := c, issued := issued s @ [g]\<rparr>
                 in
                   (case roi_shape fr (xyxy b) of
                      (h, w) \<Rightarrow>
                        if h < 50 \<or> w < 50 then Inr s1
                        else
                          (case env_tshirt b of
                             Inl e \<Rightarrow> Inl (e, s1)
                           | Inr [] \<Rightarrow> Inl (IndexError, s1)
                           | Inr (r # _) \<Rightarrow>
                               let person_filename =
                                     Person_jpg g tid (frame_number s1) (env_now b);
                                   annotated_filename =
                                     (if t_plot r
                                      then Some (Annotated_jpg g tid (frame_number s1) (env_now b))
                                      else None);
                                   files =
                                     (out_dir, person_filename) #
                                     (case annotated_filename of
                                        None \<Rightarrow> []
                                      | Some f \<Rightarrow> [(out_dir, f)]);
                                   d = \<lparr>dd_video_file = vname,
                                        global_person_number = g,
                                        track_id = tid,
                                        local_person_number = local_person_count s1,
                                        first_detected_frame = frame_number s1,
                                        timestamp = env_now b,
                                        person_confidence = conf b,
                                        bounding_box = xyxy b,
                                        tshirt_detections = tshirt_info r,
                                        person_image = person_filename,
                                        annotated_image = annotated_filename\<rparr>
                               in Inr (s1\<lparr>written := written s1 @ files,
                                          tracked_people :=
                                            AList.update tid d (tracked_people s1),
                                          detection_results :=
                                            detection_results s1 @ [d]\<rparr>))))
        else Inr s)"

fun boxes_loop ::
  "string \<Rightarrow> path \<Rightarrow> frame \<Rightarrow> state \<Rightarrow> (box \<times> int) list \<Rightarrow> (fault \<times> state) + state" where
  "boxes_loop vname out_dir fr s [] = Inr s"
| "boxes_loop vname out_dir fr s (bt # bts) =
     (case box_body vname out_dir fr s bt of
        Inl e \<Rightarrow> Inl e
      | Inr s' \<Rightarrow> boxes_loop vname out_dir fr s' bts)"

text \<open>Lines 95 to 97: the pairs of one element of the tracker's answer.\<close>

definition result_pairs :: "result \<Rightarrow> (box \<times> int) list" where
  "result_pairs r =
     (case boxes r of
        None \<Rightarrow> []
      | Some bs \<Rightarrow> (case ids r of None \<Rightarrow> [] | Some is \<Rightarrow> zip bs is))"

fun results_loop ::
  "string \<Rightarrow> path \<Rightarrow> frame \<Rightarrow> state \<Rightarrow> result list \<Rightarrow> (fault \<times> state) + state" where
  "results_loop vname out_dir fr s [] = Inr s"
| "results_loop vname out_dir fr s (r # rs) =
     (case boxes_loop vname out_dir fr s (result_pairs r) of
        Inl e \<Rightarrow> Inl e
      | Inr s' \<Rightarrow> results_loop vname out_dir fr s' rs)"

text \<open>
  Lines 73 to 173: the body of the \<^verbatim>\<open>while\<close> loop for a frame that \<^verbatim>\<open>read()\<close>
  delivered. The progress report prints only, except that it divides by
  \<^verbatim>\<open>total_frames\<close>.
\<close>

definition frame_body ::
  "string \<Rightarrow> path \<Rightarrow> int \<Rightarrow> state \<Rightarrow> frame \<Rightarrow> (fault \<times> state) + state" where
  "frame_body vname out_dir n_total s0 fr =
     (let s = s0\<lparr>frame_number := frame_number s0 + 1\<rparr> in
      if frame_number s mod 10 \<noteq> 0 then Inr s
      else if env_progress_due fr \<and> n_total = 0 then Inl (ZeroDivisionError, s)
      else
        (let s' = s\<lparr>track_calls := track_calls s @ [frame_number s]\<rparr> in
         case env_track fr of
           Inl e \<Rightarrow> Inl (e, s')
         | Inr results \<Rightarrow> results_loop vname out_dir fr s' results))"

fun frames_loop ::
  "string \<Rightarrow> path \<Rightarrow> int \<Rightarrow> state \<Rightarrow> frame list \<Rightarrow> (fault \<times> state) + state" where
  "frames_loop vname out_dir n_total s [] = Inr s"
| "frames_loop vname out_dir n_total s (fr # frs) =
     (case frame_body vname out_dir n_total s fr of
        Inl e \<Rightarrow> Inl e
      | Inr s' \<Rightarrow> frames_loop vname out_dir n_total s' frs)"

subsection \<open>\<open>process_single_video\<close>\<close>

text \<open>
  The worker, given the shared counter as it stands when the worker starts. It returns
  what the caller sees (a fault, \<^verbatim>\<open>None\<close> or the result summary) and the state of the
  world it leaves. \<open>init_state\<close> is the state before the first frame is read: the
  output directory made (line 37), the stream open if the video opens (line 49), the
  variables of lines 59 to 62.
\<close>

definition init_state :: "path \<Rightarrow> bool \<Rightarrow> ThreadSafeCounter \<Rightarrow> state" where
  "init_state video_output_dir opened c =
     \<lparr>detection_results = [], tracked_people = [], local_person_count = 0,
      frame_number = 0, counter = c, issued = [], track_calls = [], written = [],
      dirs = [video_output_dir], stream_open = opened\<rparr>"

definition process_single_video ::
  "string \<Rightarrow> path \<Rightarrow> video \<Rightarrow> ThreadSafeCounter \<Rightarrow> (fault + video_result option) \<times> state" where
  "process_single_video video_path output_base_dir v c =
     (let vname = env_stem v;
          video_output_dir = output_base_dir @ [vname];
          s0 = init_state video_output_dir (isOpened v) c
      in
        if \<not> isOpened v then (Inr None, s0)
        else
          (case frames_loop vname video_output_dir (total_frames v) s0 (frames v) of
             Inl (e, s) \<Rightarrow> (Inl e, s)
           | Inr s \<Rightarrow>
               let s1 = s\<lparr>stream_open := False\<rparr>;
                   result_summary =
                     \<lparr>video_file = video_path,
                      video_name = vname,
                      total_unique_people_detected = local_person_count s1,
                      total_frames_processed = frame_number s1,
                      tracking_ids_detected = map fst (tracked_people s1),
                      r_detection_results = detection_results s1,
                      output_directory = video_output_dir\<rparr>
               in (Inr (Some result_summary),
                   s1\<lparr>written :=
                        written s1 @ [(video_output_dir, Results_json vname (env_finished v))]\<rparr>)))"

section \<open>The orchestrator\<close>

text \<open>The dictionary \<^verbatim>\<open>combined_results\<close> of lines 253 to 263, without the wall-clock fields.\<close>

record combined_results =
  total_videos_processed :: nat
  total_videos_requested :: nat
  max_workers_used :: int
  total_people_detected_across_all_videos :: nat
  individual_video_results :: "video_result list"

text \<open>
  A task is a path of \<^verbatim>\<open>video_paths\<close> with the video behind it in this run. A future is
  the task with what \<^verbatim>\<open>future.result()\<close> does once the task has settled: raise the
  worker's fault or return the worker's value. Every worker runs against the shared
  counter \<open>c\<close> as it stands when the run starts; what the other workers add to it while
  the worker runs is in the \<open>env_others\<close> of its video.
\<close>

type_synonym future = "string \<times> video \<times> (fault + video_result option)"

definition submit_all ::
  "(string \<times> video) list \<Rightarrow> path \<Rightarrow> ThreadSafeCounter \<Rightarrow> future list" where
  "submit_all tasks output_base_dir c =
     map (\<lambda>(video_path, v).
            (video_path, v, fst (process_single_video video_path output_base_dir v c)))
       tasks"

text \<open>\<^verbatim>\<open>as_completed\<close>: the futures in the order in which their tasks settle.\<close>

definition as_completed :: "future list \<Rightarrow> future list" where
  "as_completed fs = sort_key (\<lambda>(video_path, v, outcome). env_settled v) fs"

text \<open>
  Lines 234 to 246: the collection loop. Only a result that is not \<^verbatim>\<open>None\<close> is
  appended; \<^verbatim>\<open>None\<close> and an exception print a line each.
\<close>

fun collect :: "video_result list \<Rightarrow> future list \<Rightarrow> video_result list" where
  "collect all_results [] = all_results"
| "collect all_results ((video_path, v, outcome) # fs) =
     (case outcome of
        Inl exc \<Rightarrow> collect all_results fs
      | Inr None \<Rightarrow> collect all_results fs
      | Inr (Some r) \<Rightarrow> collect (all_results @ [r]) fs)"

text \<open>
  Lines 215 to 217: the number of workers; \<open>cpu_count\<close> is \<^verbatim>\<open>os.cpu_count()\<close>. The
  thread pool refuses a number of workers that is not positive: \<^verbatim>\<open>ThreadPoolExecutor\<close>
  raises \<^verbatim>\<open>ValueError\<close>, which leaves \<open>process_multiple_videos\<close>. The combined
  results are returned; writing them to their JSON file and printing the summary are
  taken to succeed and are not part of the value.
\<close>

definition workers :: "nat \<Rightarrow> int option \<Rightarrow> nat option \<Rightarrow> int" where
  "workers n max_workers cpu_count =
     (case max_workers of
        None \<Rightarrow>
          min (int n)
            (min (case cpu_count of None \<Rightarrow> 1 | Some k \<Rightarrow> if k = 0 then 1 else int k) 4)
      | Some m \<Rightarrow> m)"

definition process_multiple_videos ::
  "(string \<times> video) list \<Rightarrow> int option \<Rightarrow> path \<Rightarrow> nat option \<Rightarrow> ThreadSafeCounter \<Rightarrow>
     fault + combined_results" where
  "process_multiple_videos tasks max_workers output_base_dir cpu_count c =
     (let w = workers (length tasks) max_workers cpu_count in
      if w \<le> 0 then Inl ValueError
      else
        (let all_results = collect [] (as_completed (submit_all tasks output_base_dir c));
             total_people_detected = sum_list (map total_unique_people_detected all_results)
         in Inr \<lparr>total_videos_processed = length all_results,
                  total_videos_requested = length tasks,
                  max_workers_used = w,
                  total_people_detected_across_all_videos = total_people_detected,
                  individual_video_results = all_results\<rparr>))"

section \<open>The detections of a video\<close>

text \<open>
  The words of the claims about a video. An event is one pair of
  \<^verbatim>\<open>zip(result.boxes, result.boxes.id)\<close> on a sampled frame, with the number of the frame
  and the frame; \<open>events_from k frs\<close> lists the events of the frames \<open>frs\<close> in the order
  the loops meet them, \<open>k\<close> frames having been decoded before.
\<close>

type_synonym event = "nat \<times> frame \<times> box \<times> int"

definition frame_pairs :: "frame \<Rightarrow> (box \<times> int) list" where
  "frame_pairs fr =
     (case env_track fr of Inl e \<Rightarrow> [] | Inr results \<Rightarrow> concat (map result_pairs results))"

definition event_of :: "nat \<Rightarrow> frame \<Rightarrow> box \<times> int \<Rightarrow> event" where
  "event_of n fr bt = (n, fr, fst bt, snd bt)"

definition frame_events :: "nat \<Rightarrow> frame \<Rightarrow> event list" where
  "frame_events n fr = map (event_of n fr) (frame_pairs fr)"

fun events_from :: "nat \<Rightarrow> frame list \<Rightarrow> event list" where
  "events_from k [] = []"
| "events_from k (fr # frs) =
     (if Suc k mod 10 = 0 then frame_events (Suc k) fr else []) @ events_from (Suc k) frs"

definition events :: "video \<Rightarrow> event list" where
  "events v = events_from 0 (frames v)"

definition ev_frame :: "event \<Rightarrow> nat" where
  "ev_frame e = (case e of (n, fr, b, tid) \<Rightarrow> n)"

definition ev_tid :: "event \<Rightarrow> int" where
  "ev_tid e = (case e of (n, fr, b, tid) \<Rightarrow> tid)"

text \<open>A qualifying detection: class person and confidence above 0.4.\<close>

definition qualifies :: "event \<Rightarrow> bool" where
  "qualifies e = (case e of (n, fr, b, tid) \<Rightarrow> conf b > 0.4 \<and> cls b = 0)"

text \<open>The crop of the detection has at least 50 rows and at least 50 columns.\<close>

definition adequate :: "event \<Rightarrow> bool" where
  "adequate e =
     (case e of (n, fr, b, tid) \<Rightarrow>
        50 \<le> fst (roi_shape fr (xyxy b)) \<and> 50 \<le> snd (roi_shape fr (xyxy b)))"

definition accepted :: "event \<Rightarrow> bool" where
  "accepted e = (qualifies e \<and> adequate e)"

text \<open>
  Event \<open>i\<close> is numbered when it qualifies and no earlier event of its track id was
  accepted (its track id is not yet deduplicated); it is recorded when, numbered, its
  crop is adequate, and rejected when, numbered, its crop is not. \<open>numbered_upto es i\<close> counts the numbered events up to and including
  event \<open>i\<close>.
\<close>

definition accepted_ids :: "event list \<Rightarrow> int set" where
  "accepted_ids es = set (map ev_tid (filter accepted es))"

definition numbered :: "event list \<Rightarrow> nat \<Rightarrow> bool" where
  "numbered es i = (qualifies (es ! i) \<and> ev_tid (es ! i) \<notin> accepted_ids (take i es))"

definition recorded :: "event list \<Rightarrow> nat \<Rightarrow> bool" where
  "recorded es i = (numbered es i \<and> adequate (es ! i))"

definition rejected :: "event list \<Rightarrow> nat \<Rightarrow> bool" where
  "rejected es i = (numbered es i \<and> \<not> adequate (es ! i))"

definition numbered_upto :: "event list \<Rightarrow> nat \<Rightarrow> nat" where
  "numbered_upto es i = length (filter (numbered es) [0..<Suc i])"

text \<open>The global person number the next call of the worker obtains for box \<open>b\<close>.\<close>

definition issue :: "state \<Rightarrow> box \<Rightarrow> nat" where
  "issue s b = Suc (c_value (counter s) + env_others b)"

text \<open>Where a detection record comes from, and the same values of an event.\<close>

definition record_source ::
  "detection_data \<Rightarrow> nat \<times> int \<times> real \<times> (int \<times> int \<times> int \<times> int)" where
  "record_source d =
     (first_detected_frame d, track_id d, person_confidence d, bounding_box d)"

definition event_source ::
  "event \<Rightarrow> nat \<times> int \<times> real \<times> (int \<times> int \<times> int \<times> int)" where
  "event_source e = (case e of (n, fr, b, tid) \<Rightarrow> (n, tid, conf b, xyxy b))"

definition final :: "(fault \<times> state) + state \<Rightarrow> state" where
  "final x = (case x of Inl (e, s) \<Rightarrow> s | Inr s \<Rightarrow> s)"

text \<open>
  The result a future holds, if its task returned one, and the results of a list of
  futures, in the order of the list.
\<close>

definition future_result :: "future \<Rightarrow> video_result option" where
  "future_result f =
     (case f of (video_path, v, outcome) \<Rightarrow>
        (case outcome of Inl exc \<Rightarrow> None | Inr None \<Rightarrow> None | Inr (Some r) \<Rightarrow> Some r))"

definition results_of :: "future list \<Rightarrow> video_result list" where
  "results_of fs = List.map_filter future_result fs"

text \<open>The number of numbered events of a video.\<close>

definition numbered_count :: "video \<Rightarrow> nat" where
  "numbered_count v = length (filter (numbered (events v)) [0..<length (events v)])"

text \<open>
  What a task contributes to the total of a run: the number of numbered events of its
  video when its worker returns a result, nothing otherwise.
\<close>

definition people_of_task :: "path \<Rightarrow> ThreadSafeCounter \<Rightarrow> string \<times> video \<Rightarrow> nat" where
  "people_of_task out c t =
     (case fst (process_single_video (fst t) out (snd t) c) of
        Inl e \<Rightarrow> 0
      | Inr None \<Rightarrow> 0
      | Inr (Some r) \<Rightarrow> numbered_count (snd t))"

section \<open>Invariants\<close>


text \<open>
  What holds of the state of the frame loop after the events \<open>es\<close>: the detection
  records are those of the recorded events, in order, each with the frame, track id,
  confidence and box of its event and with the count of the numbered events up to it as
  local person number; \<open>local_person_count\<close> is the number of numbered events; the keys
  of \<open>tracked_people\<close> are the track ids accepted so far, and its items are the records.
\<close>

definition history_inv :: "event list \<Rightarrow> state \<Rightarrow> bool" where
  "history_inv es s =
     (map record_source (detection_results s) =
        map (\<lambda>i. event_source (es ! i)) (filter (recorded es) [0..<length es]) \<and>
      map local_person_number (detection_results s) =
        map (numbered_upto es) (filter (recorded es) [0..<length es]) \<and>
      local_person_count s = length (filter (numbered es) [0..<length es]) \<and>
      set (map fst (tracked_people s)) = accepted_ids es \<and>
      map track_id (detection_results s) = map fst (tracked_people s) \<and>
      map snd (tracked_people s) = detection_results s \<and>
      length (issued s) = local_person_count s)"

text \<open>
  The global person numbers the worker has obtained, \<open>c0\<close> being the value of the
  shared counter when the worker started: they increase strictly, lie above \<open>c0\<close> and
  up to the counter, and the numbers in the detection records are among them, in order.
\<close>

definition issued_inv :: "nat \<Rightarrow> state \<Rightarrow> bool" where
  "issued_inv c0 s =
     (sorted_wrt (<) (issued s) \<and>
      (\<forall>g \<in> set (issued s). c0 < g \<and> g \<le> c_value (counter s)) \<and>
      c0 \<le> c_value (counter s) \<and>
      sorted_wrt (<) (map global_person_number (detection_results s)) \<and>
      set (map global_person_number (detection_results s)) \<subseteq> set (issued s))"

text \<open>Fields the inner loops leave alone, whatever their outcome.\<close>

definition same_outside :: "state \<Rightarrow> state \<Rightarrow> bool" where
  "same_outside s s' =
     (frame_number s' = frame_number s \<and> track_calls s' = track_calls s \<and>
      stream_open s' = stream_open s \<and> dirs s' = dirs s)"

section \<open>Example videos\<close>

text \<open>
  Frames of 480 rows and 640 columns. \<open>blank\<close> is a frame on which the tracker finds
  nothing; \<open>frame_with\<close> a frame on which it answers one result with the given boxes and
  track ids; \<open>person_box\<close> a person detected with confidence 0.9 at the given corners,
  on whose crop the t-shirt model finds nothing.
\<close>

definition blank :: frame where
  "blank = \<lparr>shape = (480, 640), env_progress_due = False, env_track = Inr []\<rparr>"

definition plain_tshirt :: tshirt_result where
  "plain_tshirt = \<lparr>t_boxes = None, t_names = None, t_plot = False\<rparr>"

definition person_box :: "int \<times> int \<times> int \<times> int \<Rightarrow> box" where
  "person_box bb =
     \<lparr>conf = 9 / 10, cls = 0, xyxy = bb, env_others = 0,
      env_tshirt = Inr [plain_tshirt], env_now = ''t''\<rparr>"

definition frame_with :: "box list \<Rightarrow> int list \<Rightarrow> frame" where
  "frame_with bs is =
     \<lparr>shape = (480, 640), env_progress_due = False,
      env_track = Inr [\<lparr>boxes = Some bs, ids = Some is\<rparr>]\<rparr>"

text \<open>
  Twenty frames. Track 7 is detected as a person on frame 10 with a crop of 200 rows and
  20 columns, and on frame 20 with a crop of 200 rows and 100 columns.
\<close>

definition small_then_big :: video where
  "small_then_big =
     \<lparr>isOpened = True, total_frames = 20,
      frames =
        replicate 9 blank @ [frame_with [person_box (100, 100, 120, 300)] [7]] @
        replicate 9 blank @ [frame_with [person_box (100, 100, 200, 300)] [7]],
      env_stem = ''a'', env_finished = ''t'', env_settled = 0\<rparr>"

definition small_then_big_result :: video_result where
  "small_then_big_result =
     \<lparr>video_file = ''a.mp4'', video_name = ''a'',
      total_unique_people_detected = 2, total_frames_processed = 20,
      tracking_ids_detected = [7],
      r_detection_results =
        [\<lparr>dd_video_file = ''a'', global_person_number = 2, track_id = 7,
          local_person_number = 2, first_detected_frame = 20, timestamp = ''t'',
          person_confidence = 9 / 10, bounding_box = (100, 100, 200, 300),
          tshirt_detections = [], person_image = Person_jpg 2 7 20 ''t'',
          annotated_image = None\<rparr>],
      output_directory = [''out'', ''a'']\<rparr>"

text \<open>
  Ten frames; on frame 10 the tracker finds tracks 1 and 2, both with adequate crops.
\<close>

definition two_people :: video where
  "two_people =
     \<lparr>isOpened = True, total_frames = 10,
      frames =
        replicate 9 blank @
        [frame_with [person_box (0, 0, 100, 100), person_box (200, 0, 300, 100)] [1, 2]],
      env_stem = ''b'', env_finished = ''t'', env_settled = 1\<rparr>"

definition two_people_result :: video_result where
  "two_people_result =
     \<lparr>video_file = ''b.mp4'', video_name = ''b'',
      total_unique_people_detected = 2, total_frames_processed = 10,
      tracking_ids_detected = [1, 2],
      r_detection_results =
        [\<lparr>dd_video_file = ''b'', global_person_number = 1, track_id = 1,
          local_person_number = 1, first_detected_frame = 10, timestamp = ''t'',
          person_confidence = 9 / 10, bounding_box = (0, 0, 100, 100),
          tshirt_detections = [], person_image = Person_jpg 1 1 10 ''t'',
          annotated_image = None\<rparr>,
         \<lparr>dd_video_file = ''b'', global_person_number = 2, track_id = 2,
          local_person_number = 2, first_detected_frame = 10, timestamp = ''t'',
          person_confidence = 9 / 10, bounding_box = (200, 0, 300, 100),
          tshirt_detections = [], person_image = Person_jpg 2 2 10 ''t'',
          annotated_image = None\<rparr>],
      output_directory = [''out'', ''b'']\<rparr>"

text \<open>
  Ten frames; on frame 10 the tracker finds tracks 1, 2 and 3, all with adequate crops.
  Between the calls of this worker the worker of another video obtains numbers from the
  shared counter, and the task settles before that of \<open>two_people\<close>.
\<close>

definition three_people :: video where
  "three_people =
     \<lparr>isOpened = True, total_frames = 10,
      frames =
        replicate 9 blank @
        [frame_with
           [person_box (0, 0, 100, 100),
            (person_box (200, 0, 300, 100))\<lparr>env_others := 1\<rparr>,
            (person_box (400, 0, 500, 100))\<lparr>env_others := 1\<rparr>]
           [1, 2, 3]],
      env_stem = ''e'', env_finished = ''t'', env_settled = 0\<rparr>"

definition three_people_result :: video_result where
  "three_people_result =
     \<lparr>video_file = ''e.mp4'', video_name = ''e'',
      total_unique_people_detected = 3, total_frames_processed = 10,
      tracking_ids_detected = [1, 2, 3],
      r_detection_results =
        [\<lparr>dd_video_file = ''e'', global_person_number = 1, track_id = 1,
          local_person_number = 1, first_detected_frame = 10, timestamp = ''t'',
          person_confidence = 9 / 10, bounding_box = (0, 0, 100, 100),
          tshirt_detections = [], person_image = Person_jpg 1 1 10 ''t'',
          annotated_image = None\<rparr>,
         \<lparr>dd_video_file = ''e'', global_person_number = 3, track_id = 2,
          local_person_number = 2, first_detected_frame = 10, timestamp = ''t'',
          person_confidence = 9 / 10, bounding_box = (200, 0, 300, 100),
          tshirt_detections = [], person_image = Person_jpg 3 2 10 ''t'',
          annotated_image = None\<rparr>,
         \<lparr>dd_video_file = ''e'', global_person_number = 5, track_id = 3,
          local_person_number = 3, first_detected_frame = 10, timestamp = ''t'',
          person_confidence = 9 / 10, bounding_box = (400, 0, 500, 100),
          tshirt_detections = [], person_image = Person_jpg 5 3 10 ''t'',
          annotated_image = None\<rparr>],
      output_directory = [''out'', ''e'']\<rparr>"

text \<open>
  The combined result of a run on \<open>two_people\<close> and \<open>three_people\<close>, in this order
  of submission.
\<close>

definition five_people :: combined_results where
  "five_people =
     \<lparr>total_videos_processed = 2, total_videos_requested = 2, max_workers_used = 2,
      total_people_detected_across_all_videos = 5,
      individual_video_results = [three_people_result, two_people_result]\<rparr>"

text \<open>Ten frames; the tracker raises on frame 10.\<close>

definition tracker_fails :: video where
  "tracker_fails =
     \<lparr>isOpened = True, total_frames = 10,
      frames =
        replicate 9 blank @
        [\<lparr>shape = (480, 640), env_progress_due = False, env_track = Inl TrackFault\<rparr>],
      env_stem = ''c'', env_finished = ''t'', env_settled = 2\<rparr>"

text \<open>A video that does not open.\<close>

definition unopened :: video where
  "unopened =
     \<lparr>isOpened = False, total_frames = 0, frames = [],
      env_stem = ''d'', env_finished = ''t'', env_settled = 3\<rparr>"

section \<open>Lemmas about the counter\<close>




text \<open>
  A call that runs without another thread in between does to the counter what
  \<open>increment\<close> does, and hands out the value \<open>increment\<close> returns.
\<close>

lemma call_is_increment:
  assumes "lock s = None" "pcs s t = Idle"
  shows "shared (run_threads s [t, t, t, t, t]) = snd (increment (shared s)) \<and>
     returned (run_threads s [t, t, t, t, t]) = returned s @ [fst (increment (shared s))] \<and>
     lock (run_threads s [t, t, t, t, t]) = None"
  using assms by (simp add: thread_step_def increment_def Let_def)

section \<open>Lemmas about the loop bodies\<close>

lemma increment_value: "increment c = (Suc (c_value c), c\<lparr>c_value := Suc (c_value c)\<rparr>)"
  by (simp add: increment_def Let_def)

lemma others_increment_value: "c_value (others_increment n c) = c_value c + n"
  unfolding others_increment_def
  by (induction n) (simp_all add: increment_value)

lemma update_new: "k \<notin> set (map fst al) \<Longrightarrow> AList.update k v al = al @ [(k, v)]"
  by (induction al) auto


lemma box_body_unqualified:
  "\<not> qualifies (n, fr, b, tid) \<Longrightarrow> box_body vname out fr s (b, tid) = Inr s"
  by (auto simp: box_body_def qualifies_def)

lemma box_body_known:
  "tid \<in> set (map fst (tracked_people s)) \<Longrightarrow> box_body vname out fr s (b, tid) = Inr s"
  by (simp add: box_body_def)

lemma box_body_rejected:
  assumes "qualifies (n, fr, b, tid)" "tid \<notin> set (map fst (tracked_people s))"
    "\<not> adequate (n, fr, b, tid)"
  shows "box_body vname out fr s (b, tid) =
     Inr (s\<lparr>local_person_count := local_person_count s + 1,
            counter := (others_increment (env_others b) (counter s))\<lparr>c_value := issue s b\<rparr>,
            issued := issued s @ [issue s b]\<rparr>)"
  using assms
  by (auto simp: box_body_def qualifies_def adequate_def increment_value issue_def
      others_increment_value Let_def split: prod.splits)

lemma box_body_accepted:
  assumes "qualifies (n, fr, b, tid)" "tid \<notin> set (map fst (tracked_people s))"
    "adequate (n, fr, b, tid)" "box_body vname out fr s (b, tid) = Inr s'"
  shows "\<exists>d fs. s' = s\<lparr>local_person_count := local_person_count s + 1,
            counter := (others_increment (env_others b) (counter s))\<lparr>c_value := issue s b\<rparr>,
            issued := issued s @ [issue s b],
            written := written s @ (out, Person_jpg (issue s b) tid (frame_number s) (env_now b)) # fs,
            tracked_people := tracked_people s @ [(tid, d)],
            detection_results := detection_results s @ [d]\<rparr> \<and>
          track_id d = tid \<and> first_detected_frame d = frame_number s \<and>
          local_person_number d = Suc (local_person_count s) \<and>
          global_person_number d = issue s b \<and> person_confidence d = conf b \<and>
          bounding_box d = xyxy b \<and> dd_video_file d = vname"
  using assms
  by (auto simp: box_body_def qualifies_def adequate_def increment_value issue_def
      others_increment_value Let_def update_new split: prod.splits sum.splits list.splits)


lemma box_body_frame_number:
  "box_body vname out fr s bt = Inr s' \<Longrightarrow> frame_number s' = frame_number s"
  by (auto simp: box_body_def Let_def split: prod.splits sum.splits list.splits if_splits)

lemma boxes_loop_frame_number:
  "boxes_loop vname out fr s bts = Inr s' \<Longrightarrow> frame_number s' = frame_number s"
proof (induction bts arbitrary: s)
  case Nil
  then show ?case by simp
next
  case (Cons bt bts)
  then show ?case
    by (auto split: sum.splits dest: box_body_frame_number)
qed

lemma boxes_loop_history:
  assumes step: "\<And>es s b tid s'. R es s \<Longrightarrow> box_body vname out fr s (b, tid) = Inr s' \<Longrightarrow>
      R (es @ [(frame_number s, fr, b, tid)]) s'"
  shows "R es s \<Longrightarrow> boxes_loop vname out fr s bts = Inr s' \<Longrightarrow>
      R (es @ map (event_of (frame_number s) fr) bts) s'"
proof (induction bts arbitrary: es s)
  case Nil
  then show ?case by simp
next
  case (Cons bt bts)
  obtain b tid where bt: "bt = (b, tid)" by (cases bt)
  from Cons.prems(2) obtain s1 where
    s1: "box_body vname out fr s (b, tid) = Inr s1" and
    rest: "boxes_loop vname out fr s1 bts = Inr s'"
    by (auto simp: bt split: sum.splits)
  have fn: "frame_number s1 = frame_number s"
    using s1 by (rule box_body_frame_number)
  have "R (es @ [(frame_number s, fr, b, tid)]) s1"
    using Cons.prems(1) s1 by (rule step)
  then have "R (es @ [event_of (frame_number s) fr bt]) s1"
    by (simp add: bt event_of_def)
  from Cons.IH [OF this rest] show ?case
    by (simp add: fn)
qed

lemma results_loop_frame_number:
  "results_loop vname out fr s rs = Inr s' \<Longrightarrow> frame_number s' = frame_number s"
proof (induction rs arbitrary: s)
  case Nil
  then show ?case by simp
next
  case (Cons r rs)
  then show ?case
    by (auto split: sum.splits dest: boxes_loop_frame_number)
qed

lemma results_loop_history:
  assumes step: "\<And>es s b tid s'. R es s \<Longrightarrow> box_body vname out fr s (b, tid) = Inr s' \<Longrightarrow>
      R (es @ [(frame_number s, fr, b, tid)]) s'"
  shows "R es s \<Longrightarrow> results_loop vname out fr s rs = Inr s' \<Longrightarrow>
      R (es @ map (event_of (frame_number s) fr) (concat (map result_pairs rs))) s'"
proof (induction rs arbitrary: es s)
  case Nil
  then show ?case by simp
next
  case (Cons r rs)
  from Cons.prems(2) obtain s1 where
    s1: "boxes_loop vname out fr s (result_pairs r) = Inr s1" and
    rest: "results_loop vname out fr s1 rs = Inr s'"
    by (auto split: sum.splits)
  have fn: "frame_number s1 = frame_number s"
    using s1 by (rule boxes_loop_frame_number)
  have "R (es @ map (event_of (frame_number s) fr) (result_pairs r)) s1"
    using step Cons.prems(1) s1 by (rule boxes_loop_history)
  from Cons.IH [OF this rest] show ?case
    by (simp add: fn)
qed

lemma frame_body_frame_number:
  "frame_body vname out n_total s fr = Inr s' \<Longrightarrow> frame_number s' = Suc (frame_number s)"
  by (auto simp: frame_body_def Let_def split: if_splits sum.splits
      dest: results_loop_frame_number)

lemma frame_body_history:
  assumes step: "\<And>es s b tid s'. R es s \<Longrightarrow> box_body vname out fr s (b, tid) = Inr s' \<Longrightarrow>
      R (es @ [(frame_number s, fr, b, tid)]) s'"
    and fn: "\<And>es s n. R es s \<Longrightarrow> R es (s\<lparr>frame_number := n\<rparr>)"
    and tc: "\<And>es s t. R es s \<Longrightarrow> R es (s\<lparr>track_calls := t\<rparr>)"
    and R: "R es s" and run: "frame_body vname out n_total s fr = Inr s'"
  shows "R (es @ events_from (frame_number s) [fr]) s'"
proof (cases "Suc (frame_number s) mod 10 = 0")
  case False
  with run have "s' = s\<lparr>frame_number := Suc (frame_number s)\<rparr>"
    by (auto simp: frame_body_def Let_def)
  with False fn [OF R] show ?thesis by simp
next
  case True
  let ?s2 = "s\<lparr>frame_number := Suc (frame_number s),
               track_calls := track_calls s @ [Suc (frame_number s)]\<rparr>"
  from True run obtain results where
    tr: "env_track fr = Inr results" and
    loop: "results_loop vname out fr ?s2 results = Inr s'"
    by (auto simp: frame_body_def Let_def split: if_splits sum.splits)
  have "R es (s\<lparr>frame_number := Suc (frame_number s)\<rparr>)"
    using R by (rule fn)
  then have "R es ((s\<lparr>frame_number := Suc (frame_number s)\<rparr>)
      \<lparr>track_calls := track_calls s @ [Suc (frame_number s)]\<rparr>)"
    by (rule tc)
  then have "R es ?s2" by simp
  from results_loop_history [of R vname out fr, OF step this loop]
  show ?thesis
    using True tr by (simp add: frame_events_def frame_pairs_def)
qed

lemma frames_loop_history:
  assumes step: "\<And>es s fr b tid s'. R es s \<Longrightarrow> box_body vname out fr s (b, tid) = Inr s' \<Longrightarrow>
      R (es @ [(frame_number s, fr, b, tid)]) s'"
    and fn: "\<And>es s n. R es s \<Longrightarrow> R es (s\<lparr>frame_number := n\<rparr>)"
    and tc: "\<And>es s t. R es s \<Longrightarrow> R es (s\<lparr>track_calls := t\<rparr>)"
  shows "R es s \<Longrightarrow> frames_loop vname out n_total s frs = Inr s' \<Longrightarrow>
      R (es @ events_from (frame_number s) frs) s'"
proof (induction frs arbitrary: es s)
  case Nil
  then show ?case by simp
next
  case (Cons fr frs)
  from Cons.prems(2) obtain s1 where
    s1: "frame_body vname out n_total s fr = Inr s1" and
    rest: "frames_loop vname out n_total s1 frs = Inr s'"
    by (auto split: sum.splits)
  have fn1: "frame_number s1 = Suc (frame_number s)"
    using s1 by (rule frame_body_frame_number)
  have "R (es @ events_from (frame_number s) [fr]) s1"
    using step fn tc Cons.prems(1) s1 by (rule frame_body_history [of R])
  from Cons.IH [OF this rest] show ?case
    by (simp add: fn1)
qed

lemma box_body_accepts:
  assumes "qualifies (n, fr, b, tid)" "tid \<notin> set (map fst (tracked_people s))"
    "adequate (n, fr, b, tid)" "env_tshirt b = Inr (r # rs)"
  shows "\<exists>s'. box_body vname out fr s (b, tid) = Inr s'"
  using assms
  by (auto simp: box_body_def qualifies_def adequate_def increment_value Let_def
      split: prod.splits)

lemma box_body_accepted_record:
  assumes "qualifies (n, fr, b, tid)" "tid \<notin> set (map fst (tracked_people s))"
    "adequate (n, fr, b, tid)" "box_body vname out fr s (b, tid) = Inr s'"
  shows "map track_id (detection_results s') = map track_id (detection_results s) @ [tid] \<and>
     tid \<in> set (map fst (tracked_people s'))"
  using assms
  by (auto simp: box_body_def qualifies_def adequate_def increment_value Let_def update_new
      split: prod.splits sum.splits list.splits)

section \<open>The state of the loop and the events met\<close>

lemma accepted_ids_snoc:
  "accepted_ids (es @ [e]) =
     (if accepted e then insert (ev_tid e) (accepted_ids es) else accepted_ids es)"
  by (simp add: accepted_ids_def)

lemma numbered_snoc_old: "i < length es \<Longrightarrow> numbered (es @ [e]) i = numbered es i"
  by (simp add: numbered_def nth_append)

lemma recorded_snoc_old: "i < length es \<Longrightarrow> recorded (es @ [e]) i = recorded es i"
  by (simp add: recorded_def numbered_snoc_old nth_append)

lemma numbered_snoc_new:
  "numbered (es @ [e]) (length es) =
     (qualifies e \<and> ev_tid e \<notin> accepted_ids es)"
  by (simp add: numbered_def)

lemma recorded_snoc_new:
  "recorded (es @ [e]) (length es) =
     (accepted e \<and> ev_tid e \<notin> accepted_ids es)"
  by (auto simp: recorded_def numbered_snoc_new accepted_def)

lemma filter_numbered_snoc:
  "n \<le> length es \<Longrightarrow> filter (numbered (es @ [e])) [0..<n] = filter (numbered es) [0..<n]"
  by (rule filter_cong) (simp_all add: numbered_snoc_old)

lemma filter_recorded_snoc:
  "filter (recorded (es @ [e])) [0..<length es] = filter (recorded es) [0..<length es]"
  by (rule filter_cong) (simp_all add: recorded_snoc_old)

lemma numbered_upto_snoc_old:
  "i < length es \<Longrightarrow> numbered_upto (es @ [e]) i = numbered_upto es i"
  unfolding numbered_upto_def
  using filter_numbered_snoc [of "Suc i" es e] by simp

lemma numbered_upto_snoc_new:
  "numbered_upto (es @ [e]) (length es) =
     length (filter (numbered es) [0..<length es]) +
     (if numbered (es @ [e]) (length es) then 1 else 0)"
  unfolding numbered_upto_def
  using filter_numbered_snoc [of "length es" es e] by simp

lemma map_recorded_snoc:
  "map (\<lambda>i. f ((es @ [e]) ! i)) (filter (recorded es) [0..<length es]) =
   map (\<lambda>i. f (es ! i)) (filter (recorded es) [0..<length es])"
  by (rule map_cong) (simp_all add: nth_append)

lemma map_numbered_upto_snoc:
  "map (numbered_upto (es @ [e])) (filter (recorded es) [0..<length es]) =
   map (numbered_upto es) (filter (recorded es) [0..<length es])"
  by (rule map_cong) (simp_all add: numbered_upto_snoc_old)

lemma history_inv_step:
  assumes inv: "history_inv es s"
    and run: "box_body vname out fr s (b, tid) = Inr s'"
  shows "history_inv (es @ [(frame_number s, fr, b, tid)]) s'"
proof -
  let ?e = "(frame_number s, fr, b, tid)"
  have keys: "set (map fst (tracked_people s)) = accepted_ids es"
    using inv by (simp add: history_inv_def)
  have tid: "ev_tid ?e = tid" by (simp add: ev_tid_def)
  consider (unq) "\<not> qualifies ?e"
    | (known) "qualifies ?e" "tid \<in> set (map fst (tracked_people s))"
    | (rej) "qualifies ?e" "tid \<notin> set (map fst (tracked_people s))" "\<not> adequate ?e"
    | (acc) "qualifies ?e" "tid \<notin> set (map fst (tracked_people s))" "adequate ?e"
    by blast
  then show ?thesis
  proof cases
    case unq
    then have "s' = s" using run box_body_unqualified [of "frame_number s" fr b tid] by simp
    moreover have "\<not> numbered (es @ [?e]) (length es)" "\<not> recorded (es @ [?e]) (length es)"
      "\<not> accepted ?e"
      using unq by (simp_all add: numbered_snoc_new recorded_snoc_new accepted_def)
    ultimately show ?thesis
      using inv
      by (simp add: history_inv_def filter_numbered_snoc filter_recorded_snoc
          map_recorded_snoc map_numbered_upto_snoc accepted_ids_snoc)
  next
    case known
    then have "s' = s" using run box_body_known [of tid s] by simp
    moreover have "\<not> numbered (es @ [?e]) (length es)" "\<not> recorded (es @ [?e]) (length es)"
      using known keys tid by (simp_all add: numbered_snoc_new recorded_snoc_new)
    moreover have "accepted_ids (es @ [?e]) =
        accepted_ids es"
      using known keys tid by (auto simp: accepted_ids_snoc)
    ultimately show ?thesis
      using inv
      by (simp add: history_inv_def filter_numbered_snoc filter_recorded_snoc
          map_recorded_snoc map_numbered_upto_snoc accepted_ids_snoc)
  next
    case rej
    from box_body_rejected [OF rej, of vname out] run
    have s': "s' = s\<lparr>local_person_count := local_person_count s + 1,
            counter := (others_increment (env_others b) (counter s))\<lparr>c_value := issue s b\<rparr>,
            issued := issued s @ [issue s b]\<rparr>"
      by simp
    have "numbered (es @ [?e]) (length es)" "\<not> recorded (es @ [?e]) (length es)"
      "\<not> accepted ?e"
      using rej keys tid by (simp_all add: numbered_snoc_new recorded_snoc_new accepted_def)
    then show ?thesis
      using inv
      by (simp add: s' history_inv_def filter_numbered_snoc filter_recorded_snoc
          map_recorded_snoc map_numbered_upto_snoc accepted_ids_snoc)
  next
    case acc
    from box_body_accepted [OF acc run] obtain d fs where
      s': "s' = s\<lparr>local_person_count := local_person_count s + 1,
            counter := (others_increment (env_others b) (counter s))\<lparr>c_value := issue s b\<rparr>,
            issued := issued s @ [issue s b],
            written := written s @ (out, Person_jpg (issue s b) tid (frame_number s) (env_now b)) # fs,
            tracked_people := tracked_people s @ [(tid, d)],
            detection_results := detection_results s @ [d]\<rparr>" and
      d: "track_id d = tid" "first_detected_frame d = frame_number s"
         "local_person_number d = Suc (local_person_count s)"
         "person_confidence d = conf b" "bounding_box d = xyxy b"
      by blast
    have new: "numbered (es @ [?e]) (length es)" "recorded (es @ [?e]) (length es)"
      "accepted ?e"
      using acc keys tid by (simp_all add: numbered_snoc_new recorded_snoc_new accepted_def)
    have src: "record_source d = event_source ?e"
      using d by (simp add: record_source_def event_source_def)
    have num: "local_person_number d = numbered_upto (es @ [?e]) (length es)"
      using d new inv by (simp add: numbered_upto_snoc_new history_inv_def)
    show ?thesis
      using inv new src num d(1) tid
      by (simp add: s' history_inv_def filter_numbered_snoc filter_recorded_snoc
          map_recorded_snoc map_numbered_upto_snoc accepted_ids_snoc)
  qed
qed

section \<open>Lemmas about a run of the worker\<close>

lemma history_inv_init: "history_inv [] (init_state d opened c)"
  by (simp add: history_inv_def init_state_def accepted_ids_def)

lemma history_inv_frame_number:
  "history_inv es s \<Longrightarrow> history_inv es (s\<lparr>frame_number := n\<rparr>)"
  by (simp add: history_inv_def)

lemma history_inv_track_calls:
  "history_inv es s \<Longrightarrow> history_inv es (s\<lparr>track_calls := t\<rparr>)"
  by (simp add: history_inv_def)

lemma frames_loop_history_inv:
  assumes "frames_loop vname out n_total (init_state d opened c) frs = Inr s'"
  shows "history_inv (events_from 0 frs) s'"
proof -
  have "history_inv ([] @ events_from (frame_number (init_state d opened c)) frs) s'"
    using history_inv_step history_inv_frame_number history_inv_track_calls
      history_inv_init assms
    by (rule frames_loop_history [of history_inv])
  then show ?thesis by (simp add: init_state_def)
qed

text \<open>What a completed run returns.\<close>

lemma process_single_video_completed:
  assumes "process_single_video video_path output_base_dir v c = (Inr (Some r), s)"
  obtains st where
    "frames_loop (env_stem v) (output_base_dir @ [env_stem v]) (total_frames v)
       (init_state (output_base_dir @ [env_stem v]) (isOpened v) c) (frames v) = Inr st"
    "isOpened v"
    "r = \<lparr>video_file = video_path, video_name = env_stem v,
          total_unique_people_detected = local_person_count st,
          total_frames_processed = frame_number st,
          tracking_ids_detected = map fst (tracked_people st),
          r_detection_results = detection_results st,
          output_directory = output_base_dir @ [env_stem v]\<rparr>"
    "s = st\<lparr>stream_open := False,
          written := written st @
            [(output_base_dir @ [env_stem v], Results_json (env_stem v) (env_finished v))]\<rparr>"
  using assms
  by (auto simp: process_single_video_def Let_def split: if_splits sum.splits prod.splits)

lemma issued_inv_step:
  assumes inv: "issued_inv c0 s"
    and run: "box_body vname out fr s (b, tid) = Inr s'"
  shows "issued_inv c0 s'"
proof -
  let ?e = "(frame_number s, fr, b, tid)"
  have lt: "\<forall>g \<in> set (issued s). g < issue s b"
    using inv by (auto simp: issued_inv_def issue_def)
  consider (unq) "\<not> qualifies ?e"
    | (known) "qualifies ?e" "tid \<in> set (map fst (tracked_people s))"
    | (rej) "qualifies ?e" "tid \<notin> set (map fst (tracked_people s))" "\<not> adequate ?e"
    | (acc) "qualifies ?e" "tid \<notin> set (map fst (tracked_people s))" "adequate ?e"
    by blast
  then show ?thesis
  proof cases
    case unq
    then have "s' = s" using run box_body_unqualified [of "frame_number s" fr b tid] by simp
    with inv show ?thesis by simp
  next
    case known
    then have "s' = s" using run box_body_known [of tid s] by simp
    with inv show ?thesis by simp
  next
    case rej
    from box_body_rejected [OF rej, of vname out] run
    have s': "s' = s\<lparr>local_person_count := local_person_count s + 1,
            counter := (others_increment (env_others b) (counter s))\<lparr>c_value := issue s b\<rparr>,
            issued := issued s @ [issue s b]\<rparr>"
      by simp
    show ?thesis
      using inv lt
      by (auto simp: s' issued_inv_def sorted_wrt_append issue_def)
  next
    case acc
    from box_body_accepted [OF acc run] obtain d fs where
      s': "s' = s\<lparr>local_person_count := local_person_count s + 1,
            counter := (others_increment (env_others b) (counter s))\<lparr>c_value := issue s b\<rparr>,
            issued := issued s @ [issue s b],
            written := written s @ (out, Person_jpg (issue s b) tid (frame_number s) (env_now b)) # fs,
            tracked_people := tracked_people s @ [(tid, d)],
            detection_results := detection_results s @ [d]\<rparr>" and
      d: "global_person_number d = issue s b"
      by blast
    have "\<forall>g \<in> set (map global_person_number (detection_results s)). g < issue s b"
      using inv lt by (auto simp: issued_inv_def)
    then show ?thesis
      using inv lt d
      by (auto simp: s' issued_inv_def sorted_wrt_append issue_def)
  qed
qed

lemma frames_loop_issued_inv:
  assumes "frames_loop vname out n_total (init_state d opened c) frs = Inr s'"
  shows "issued_inv (c_value c) s'"
proof -
  let ?R = "\<lambda>es :: event list. issued_inv (c_value c)"
  have "?R ([] @ events_from (frame_number (init_state d opened c)) frs) s'"
  proof (rule frames_loop_history [of ?R, OF _ _ _ _ assms])
    show "issued_inv (c_value c) (init_state d opened c)"
      by (simp add: issued_inv_def init_state_def)
  qed (simp_all add: issued_inv_step, simp_all add: issued_inv_def)
  then show ?thesis .
qed

lemma same_outside_refl: "same_outside s s"
  by (simp add: same_outside_def)

lemma same_outside_trans: "same_outside s s1 \<Longrightarrow> same_outside s1 s2 \<Longrightarrow> same_outside s s2"
  by (simp add: same_outside_def)

lemma box_body_same_outside: "same_outside s (final (box_body vname out fr s bt))"
  by (auto simp: box_body_def final_def same_outside_def Let_def
      split: prod.splits sum.splits list.splits)

lemma boxes_loop_same_outside: "same_outside s (final (boxes_loop vname out fr s bts))"
proof (induction bts arbitrary: s)
  case Nil
  then show ?case by (simp add: final_def same_outside_def)
next
  case (Cons bt bts)
  show ?case
  proof (cases "box_body vname out fr s bt")
    case (Inl x)
    with box_body_same_outside [of s vname out fr bt] show ?thesis by simp
  next
    case (Inr s1)
    with box_body_same_outside [of s vname out fr bt] have "same_outside s s1"
      by (simp add: final_def)
    with Cons [of s1] Inr show ?thesis
      by (auto intro: same_outside_trans)
  qed
qed

lemma results_loop_same_outside: "same_outside s (final (results_loop vname out fr s rs))"
proof (induction rs arbitrary: s)
  case Nil
  then show ?case by (simp add: final_def same_outside_def)
next
  case (Cons r rs)
  show ?case
  proof (cases "boxes_loop vname out fr s (result_pairs r)")
    case (Inl x)
    with boxes_loop_same_outside [of s vname out fr "result_pairs r"] show ?thesis by simp
  next
    case (Inr s1)
    with boxes_loop_same_outside [of s vname out fr "result_pairs r"] have "same_outside s s1"
      by (simp add: final_def)
    with Cons [of s1] Inr show ?thesis
      by (auto intro: same_outside_trans)
  qed
qed

lemma frame_body_stream_open:
  "stream_open (final (frame_body vname out n_total s fr)) = stream_open s"
proof (cases "env_track fr")
  case (Inl e)
  then show ?thesis
    by (simp add: frame_body_def Let_def final_def)
next
  case (Inr rs)
  let ?s2 = "s\<lparr>frame_number := Suc (frame_number s),
               track_calls := track_calls s @ [Suc (frame_number s)]\<rparr>"
  have "stream_open (final (results_loop vname out fr ?s2 rs)) = stream_open s"
    using results_loop_same_outside [of ?s2 vname out fr rs] by (simp add: same_outside_def)
  with Inr show ?thesis
    by (simp add: frame_body_def Let_def final_def)
qed

lemma frames_loop_stream_open:
  "stream_open (final (frames_loop vname out n_total s frs)) = stream_open s"
proof (induction frs arbitrary: s)
  case Nil
  then show ?case by (simp add: final_def)
next
  case (Cons fr frs)
  show ?case
  proof (cases "frame_body vname out n_total s fr")
    case (Inl x)
    with frame_body_stream_open [of vname out n_total s fr] show ?thesis by simp
  next
    case (Inr s1)
    with frame_body_stream_open [of vname out n_total s fr] have "stream_open s1 = stream_open s"
      by (simp add: final_def)
    with Cons [of s1] Inr show ?thesis by simp
  qed
qed

lemma frame_body_track_calls:
  assumes "frame_body vname out n_total s fr = Inr s'"
  shows "track_calls s' = track_calls s @
     (if Suc (frame_number s) mod 10 = 0 then [Suc (frame_number s)] else [])"
proof (cases "Suc (frame_number s) mod 10 = 0")
  case False
  with assms show ?thesis by (auto simp: frame_body_def Let_def)
next
  case True
  let ?s2 = "s\<lparr>frame_number := Suc (frame_number s),
               track_calls := track_calls s @ [Suc (frame_number s)]\<rparr>"
  from True assms obtain rs where "results_loop vname out fr ?s2 rs = Inr s'"
    by (auto simp: frame_body_def Let_def split: if_splits sum.splits)
  with results_loop_same_outside [of ?s2 vname out fr rs] True show ?thesis
    by (simp add: same_outside_def final_def)
qed

lemma frames_loop_track_calls:
  "frames_loop vname out n_total s frs = Inr s' \<Longrightarrow>
   track_calls s' = track_calls s @
     filter (\<lambda>n. n mod 10 = 0) [Suc (frame_number s)..<Suc (frame_number s + length frs)] \<and>
   frame_number s' = frame_number s + length frs"
proof (induction frs arbitrary: s)
  case Nil
  then show ?case by simp
next
  case (Cons fr frs)
  from Cons.prems obtain s1 where
    s1: "frame_body vname out n_total s fr = Inr s1" and
    rest: "frames_loop vname out n_total s1 frs = Inr s'"
    by (auto split: sum.splits)
  have fn1: "frame_number s1 = Suc (frame_number s)"
    using s1 by (rule frame_body_frame_number)
  have up: "[Suc (frame_number s)..<Suc (frame_number s + length (fr # frs))] =
      Suc (frame_number s) # [Suc (Suc (frame_number s))..<Suc (Suc (frame_number s) + length frs)]"
    by (simp add: upt_conv_Cons del: upt_Suc)
  from Cons.IH [OF rest] frame_body_track_calls [OF s1] show ?case
    unfolding up by (simp add: fn1 del: upt_Suc)
qed


lemma completed_history:
  assumes "fst (process_single_video video_path output_base_dir v c) = Inr (Some r)"
  obtains st where
    "history_inv (events v) st"
    "issued_inv (c_value c) st"
    "r_detection_results r = detection_results st"
    "total_unique_people_detected r = local_person_count st"
    "total_frames_processed r = frame_number st"
    "tracking_ids_detected r = map fst (tracked_people st)"
    "issued (snd (process_single_video video_path output_base_dir v c)) = issued st"
    "track_calls (snd (process_single_video video_path output_base_dir v c)) = track_calls st"
    "track_calls st = filter (\<lambda>n. n mod 10 = 0) [Suc 0..<Suc (length (frames v))]"
    "frame_number st = length (frames v)"
proof -
  obtain s where run: "process_single_video video_path output_base_dir v c = (Inr (Some r), s)"
    using assms by (cases "process_single_video video_path output_base_dir v c") simp
  from process_single_video_completed [OF run] obtain st where
    loop: "frames_loop (env_stem v) (output_base_dir @ [env_stem v]) (total_frames v)
       (init_state (output_base_dir @ [env_stem v]) (isOpened v) c) (frames v) = Inr st" and
    r: "r = \<lparr>video_file = video_path, video_name = env_stem v,
          total_unique_people_detected = local_person_count st,
          total_frames_processed = frame_number st,
          tracking_ids_detected = map fst (tracked_people st),
          r_detection_results = detection_results st,
          output_directory = output_base_dir @ [env_stem v]\<rparr>" and
    s: "s = st\<lparr>stream_open := False,
          written := written st @
            [(output_base_dir @ [env_stem v], Results_json (env_stem v) (env_finished v))]\<rparr>"
    by blast
  have h: "history_inv (events v) st"
    using frames_loop_history_inv [OF loop] by (simp add: events_def)
  have g: "issued_inv (c_value c) st"
    using loop by (rule frames_loop_issued_inv)
  have t: "track_calls st = filter (\<lambda>n. n mod 10 = 0) [Suc 0..<Suc (length (frames v))]"
      "frame_number st = length (frames v)"
    using frames_loop_track_calls [OF loop] by (simp_all add: init_state_def)
  show thesis
    by (rule that [of st]) (use h g t in \<open>simp_all add: r run s\<close>)
qed

section \<open>Lemmas about numbered and recorded events\<close>

lemma set_take_nth: "i \<le> length es \<Longrightarrow> set (take i es) = {es ! j | j. j < i}"
proof -
  assume "i \<le> length es"
  then have "length (take i es) = i" by simp
  then have "set (take i es) = {take i es ! j | j. j < i}"
    using set_conv_nth [of "take i es"] by simp
  also have "\<dots> = {es ! j | j. j < i}"
    by (rule Collect_cong) (metis nth_take)
  finally show ?thesis .
qed

lemma accepted_ids_take:
  assumes "i \<le> length es"
  shows "accepted_ids (take i es) = {ev_tid (es ! j) | j. j < i \<and> accepted (es ! j)}"
proof -
  have "accepted_ids (take i es) = ev_tid ` {e \<in> set (take i es). accepted e}"
    by (simp add: accepted_ids_def)
  also have "\<dots> = ev_tid ` {e \<in> {es ! j | j. j < i}. accepted e}"
    by (simp only: set_take_nth [OF assms])
  also have "\<dots> = {ev_tid (es ! j) | j. j < i \<and> accepted (es ! j)}"
    by blast
  finally show ?thesis .
qed


lemma recorded_iff_first:
  assumes "i < length es"
  shows "recorded es i \<longleftrightarrow>
     accepted (es ! i) \<and> (\<forall>j<i. accepted (es ! j) \<longrightarrow> ev_tid (es ! j) \<noteq> ev_tid (es ! i))"
proof -
  from assms have "i \<le> length es" by simp
  then have ids: "accepted_ids (take i es) = {ev_tid (es ! j) | j. j < i \<and> accepted (es ! j)}"
    by (rule accepted_ids_take)
  have "recorded es i \<longleftrightarrow> accepted (es ! i) \<and> ev_tid (es ! i) \<notin> accepted_ids (take i es)"
    by (auto simp: recorded_def numbered_def accepted_def)
  also have "\<dots> \<longleftrightarrow> accepted (es ! i) \<and>
      (\<forall>j<i. accepted (es ! j) \<longrightarrow> ev_tid (es ! j) \<noteq> ev_tid (es ! i))"
    unfolding ids by auto
  finally show ?thesis .
qed

lemma recorded_tids_differ:
  assumes "i < j" "j < length es" "recorded es i" "recorded es j"
  shows "ev_tid (es ! i) \<noteq> ev_tid (es ! j)"
proof -
  from assms have "i < length es" by simp
  from recorded_iff_first [OF this] assms(3) have "accepted (es ! i)" by simp
  with recorded_iff_first [OF assms(2)] assms(1,4) show ?thesis by blast
qed

lemma recorded_tids_distinct:
  "distinct (map (\<lambda>i. ev_tid (es ! i)) (filter (recorded es) [0..<length es]))"
proof -
  have "inj_on (\<lambda>i. ev_tid (es ! i)) (set (filter (recorded es) [0..<length es]))"
  proof (rule inj_onI)
    fix i j
    assume i: "i \<in> set (filter (recorded es) [0..<length es])"
      and j: "j \<in> set (filter (recorded es) [0..<length es])"
      and eq: "ev_tid (es ! i) = ev_tid (es ! j)"
    from i j have il: "i < length es" and jl: "j < length es"
      and ri: "recorded es i" and rj: "recorded es j" by simp_all
    show "i = j"
    proof (rule ccontr)
      assume "i \<noteq> j"
      then consider "i < j" | "j < i" by linarith
      then show False
      proof cases
        case 1
        from recorded_tids_differ [OF 1 jl ri rj] eq show False by simp
      next
        case 2
        from recorded_tids_differ [OF 2 il rj ri] eq show False by simp
      qed
    qed
  qed
  then show ?thesis
    by (simp add: distinct_map)
qed

lemma track_id_record_source: "track_id d = fst (snd (record_source d))"
  by (simp add: record_source_def)

lemma ev_tid_event_source: "ev_tid e = fst (snd (event_source e))"
  by (simp add: event_source_def ev_tid_def split: prod.splits)

lemma upt_split: "i \<le> n \<Longrightarrow> [0..<n] = [0..<i] @ [i..<n]"
  using upt_add_eq_append [of 0 i "n - i"] by simp

lemma numbered_upto_le:
  assumes "i < n"
  shows "numbered_upto es i \<le> length (filter (numbered es) [0..<n])"
proof -
  from assms have "[0..<n] = [0..<Suc i] @ [Suc i..<n]"
    by (intro upt_split) simp
  then have "filter (numbered es) [0..<n] =
      filter (numbered es) [0..<Suc i] @ filter (numbered es) [Suc i..<n]"
    by (simp only: filter_append)
  then show ?thesis
    by (simp add: numbered_upto_def del: upt_Suc)
qed

lemma numbered_upto_less:
  assumes "i < j" "numbered es j"
  shows "numbered_upto es i < numbered_upto es j"
proof -
  from assms(1) have "numbered_upto es i \<le> length (filter (numbered es) [0..<j])"
    by (rule numbered_upto_le)
  moreover have "numbered_upto es j = Suc (length (filter (numbered es) [0..<j]))"
    using assms(2) by (simp add: numbered_upto_def)
  ultimately show ?thesis by simp
qed

lemma numbered_upto_sorted:
  "sorted_wrt (<) (map (numbered_upto es) (filter (recorded es) [0..<n]))"
proof -
  have "sorted_wrt (<) (filter (recorded es) [0..<n])"
    by (rule sorted_wrt_filter) (simp add: sorted_wrt_upt)
  then have "sorted_wrt (\<lambda>i j. numbered_upto es i < numbered_upto es j)
      (filter (recorded es) [0..<n])"
  proof (rule sorted_wrt_mono_rel [rotated])
    fix i j
    assume "i \<in> set (filter (recorded es) [0..<n])" "j \<in> set (filter (recorded es) [0..<n])"
      "i < j"
    then show "numbered_upto es i < numbered_upto es j"
      by (simp add: numbered_upto_less recorded_def)
  qed
  then show ?thesis
    by (simp add: sorted_wrt_map)
qed

lemma numbered_upto_pos: "numbered es i \<Longrightarrow> 1 \<le> numbered_upto es i"
  by (simp add: numbered_upto_def)

lemma positions_of_filter:
  "map (\<lambda>i. length (filter P [0..<Suc i])) (filter P [0..<n]) =
     [1..<Suc (length (filter P [0..<n]))]"
  by (induction n) auto

lemma length_filter_split:
  "length (filter P xs) =
     length (filter (\<lambda>x. P x \<and> Q x) xs) + length (filter (\<lambda>x. P x \<and> \<not> Q x) xs)"
  by (induction xs) auto

lemma numbered_split:
  "length (filter (numbered es) [0..<n]) =
     length (filter (recorded es) [0..<n]) + length (filter (rejected es) [0..<n])"
proof -
  have "recorded es = (\<lambda>i. numbered es i \<and> adequate (es ! i))"
       "rejected es = (\<lambda>i. numbered es i \<and> \<not> adequate (es ! i))"
    by (simp_all add: recorded_def rejected_def fun_eq_iff)
  then show ?thesis
    using length_filter_split [of "numbered es" "[0..<n]" "\<lambda>i. adequate (es ! i)"] by simp
qed

lemma no_rejected_recorded:
  assumes "filter (rejected es) [0..<n] = []"
  shows "filter (recorded es) [0..<n] = filter (numbered es) [0..<n]"
proof (rule filter_cong)
  fix i assume "i \<in> set [0..<n]"
  with assms have "\<not> rejected es i"
    by (auto simp: filter_empty_conv)
  then show "recorded es i = numbered es i"
    by (auto simp: recorded_def rejected_def)
qed simp

lemma accepted_ids_take_subset: "accepted_ids (take i es) \<subseteq> accepted_ids es"
  by (auto simp: accepted_ids_def dest: in_set_takeD)

lemma length_filter_nth:
  "length (filter (\<lambda>i. Q (es ! i)) [0..<length es]) = length (filter Q es)"
proof -
  have "filter Q es = filter Q (map (\<lambda>i. es ! i) [0..<length es])"
    by (simp add: map_nth)
  also have "\<dots> = map (\<lambda>i. es ! i) (filter (\<lambda>i. Q (es ! i)) [0..<length es])"
    by (simp add: filter_map comp_def)
  finally show ?thesis by simp
qed

lemma numbered_of_unaccepted:
  assumes "tid \<notin> accepted_ids es"
  shows "length (filter (\<lambda>i. numbered es i \<and> ev_tid (es ! i) = tid) [0..<length es]) =
     length (filter (\<lambda>e. qualifies e \<and> ev_tid e = tid) es)"
proof -
  have "filter (\<lambda>i. numbered es i \<and> ev_tid (es ! i) = tid) [0..<length es] =
      filter (\<lambda>i. qualifies (es ! i) \<and> ev_tid (es ! i) = tid) [0..<length es]"
  proof (rule filter_cong)
    fix i
    show "(numbered es i \<and> ev_tid (es ! i) = tid) =
        (qualifies (es ! i) \<and> ev_tid (es ! i) = tid)"
      using assms accepted_ids_take_subset [of i es] by (auto simp: numbered_def)
  qed simp
  then show ?thesis
    using length_filter_nth [of "\<lambda>e. qualifies e \<and> ev_tid e = tid" es] by simp
qed

lemma completed_count:
  assumes "fst (process_single_video video_path output_base_dir v c) = Inr (Some r)"
  shows "total_unique_people_detected r = numbered_count v"
proof (rule completed_history [OF assms])
  fix st
  assume h: "history_inv (events v) st"
    and t: "total_unique_people_detected r = local_person_count st"
  from h t show ?thesis
    by (simp add: history_inv_def numbered_count_def)
qed

section \<open>Lemmas about the orchestrator\<close>

lemma results_of_Nil: "results_of [] = []"
  by (simp add: results_of_def List.map_filter_simps)

lemma results_of_Cons:
  "results_of (f # fs) =
     (case future_result f of None \<Rightarrow> results_of fs | Some r \<Rightarrow> r # results_of fs)"
  by (simp add: results_of_def List.map_filter_simps split: option.splits)

lemma collect_results_of: "collect all_results fs = all_results @ results_of fs"
proof (induction fs arbitrary: all_results)
  case Nil
  then show ?case by (simp add: results_of_Nil)
next
  case (Cons f fs)
  obtain video_path v outcome where f: "f = (video_path, v, outcome)"
    by (cases f)
  show ?case
    by (simp add: f Cons results_of_Cons future_result_def split: sum.splits option.splits)
qed

lemma results_of_filter:
  "results_of fs = map (the \<circ> future_result) (filter (\<lambda>f. future_result f \<noteq> None) fs)"
  by (simp add: results_of_def map_filter_def)

lemma results_of_as_completed:
  "results_of (as_completed fs) =
     map (the \<circ> future_result) (as_completed (filter (\<lambda>f. future_result f \<noteq> None) fs))"
  by (simp add: results_of_filter as_completed_def filter_sort)

lemma sum_list_insort_key:
  "sum_list (map g (insort_key k x xs)) = (g x :: nat) + sum_list (map g xs)"
  by (induction xs) simp_all

lemma sum_list_sort_key: "sum_list (map g (sort_key k xs)) = sum_list (map (g :: 'a \<Rightarrow> nat) xs)"
  by (induction xs) (simp_all add: sum_list_insort_key)

lemma sum_results_as_completed:
  "sum_list (map g (results_of (as_completed fs))) = sum_list (map (g :: video_result \<Rightarrow> nat) (results_of fs))"
proof -
  have "sum_list (map g (results_of (as_completed fs))) =
      sum_list (map (g \<circ> (the \<circ> future_result))
        (as_completed (filter (\<lambda>f. future_result f \<noteq> None) fs)))"
    by (simp add: results_of_as_completed)
  also have "\<dots> = sum_list (map (g \<circ> (the \<circ> future_result))
        (filter (\<lambda>f. future_result f \<noteq> None) fs))"
    unfolding as_completed_def by (rule sum_list_sort_key)
  also have "\<dots> = sum_list (map g (results_of fs))"
    by (simp add: results_of_filter)
  finally show ?thesis .
qed

lemma length_results_as_completed:
  "length (results_of (as_completed fs)) = length (results_of fs)"
  unfolding results_of_as_completed by (simp add: results_of_filter as_completed_def)

lemma set_results_as_completed:
  "set (results_of (as_completed fs)) = set (results_of fs)"
  unfolding results_of_as_completed by (simp add: results_of_filter as_completed_def)

lemma submit_all_append:
  "submit_all (ts @ us) out c = submit_all ts out c @ submit_all us out c"
  by (simp add: submit_all_def)

lemma submit_all_Cons:
  "submit_all ((p, v) # ts) out c =
     (p, v, fst (process_single_video p out v c)) # submit_all ts out c"
  by (simp add: submit_all_def)

lemma length_submit_all: "length (submit_all ts out c) = length ts"
  by (simp add: submit_all_def)

lemma future_result_simps:
  "future_result (p, v, Inl e) = None"
  "future_result (p, v, Inr None) = None"
  "future_result (p, v, Inr (Some r)) = Some r"
  by (simp_all add: future_result_def)

text \<open>Leaving out a task that returned no result does not change what is collected.\<close>

lemma failed_task_ignored:
  assumes "future_result (p, v, fst (process_single_video p out v c)) = None"
  shows "results_of (as_completed (submit_all (pre @ (p, v) # post) out c)) =
     results_of (as_completed (submit_all (pre @ post) out c))"
proof -
  have "filter (\<lambda>f. future_result f \<noteq> None) (submit_all (pre @ (p, v) # post) out c) =
      filter (\<lambda>f. future_result f \<noteq> None) (submit_all (pre @ post) out c)"
    using assms by (simp add: submit_all_append submit_all_Cons)
  then show ?thesis
    by (simp only: results_of_as_completed)
qed

lemma process_multiple_videos_Inr:
  assumes "process_multiple_videos tasks max_workers out cpu_count c = Inr cr"
  shows "individual_video_results cr = results_of (as_completed (submit_all tasks out c))"
    and "total_videos_processed cr = length (individual_video_results cr)"
    and "total_videos_requested cr = length tasks"
    and "total_people_detected_across_all_videos cr =
      sum_list (map total_unique_people_detected (individual_video_results cr))"
    and "max_workers_used cr = workers (length tasks) max_workers cpu_count"
    and "0 < workers (length tasks) max_workers cpu_count"
  using assms
  by (auto simp: process_multiple_videos_def Let_def collect_results_of split: if_splits)

lemma process_multiple_videos_returns:
  assumes "0 < workers (length tasks) max_workers cpu_count"
  shows "\<exists>cr. process_multiple_videos tasks max_workers out cpu_count c = Inr cr"
  using assms by (simp add: process_multiple_videos_def Let_def)

lemma workers_positive:
  assumes "tasks \<noteq> []" "\<forall>m. max_workers = Some m \<longrightarrow> 0 < m"
  shows "0 < workers (length tasks) max_workers cpu_count"
proof (cases max_workers)
  case None
  from assms(1) have "0 < int (length tasks)" by simp
  with None show ?thesis
    by (simp add: workers_def split: option.splits)
next
  case (Some m)
  with assms(2) show ?thesis by (simp add: workers_def)
qed

lemma result_video_file:
  assumes "fst (process_single_video p out v c) = Inr (Some r)"
  shows "video_file r = p"
  using assms
  by (auto simp: process_single_video_def Let_def split: if_splits sum.splits prod.splits)

lemma results_of_video_files:
  "set (map video_file (results_of (submit_all ts out c))) \<subseteq> set (map fst ts)"
proof (induction ts)
  case Nil
  then show ?case by (simp add: submit_all_def results_of_Nil)
next
  case (Cons t ts)
  obtain p v where t: "t = (p, v)" by (cases t)
  show ?case
  proof (cases "fst (process_single_video p out v c)")
    case (Inl e)
    with Cons show ?thesis
      by (auto simp: t submit_all_Cons results_of_Cons future_result_simps)
  next
    case (Inr ro)
    show ?thesis
    proof (cases ro)
      case None
      with Inr Cons show ?thesis
        by (auto simp: t submit_all_Cons results_of_Cons future_result_simps)
    next
      case (Some r)
      with Inr have "video_file r = p" by (simp add: result_video_file)
      with Some Inr Cons show ?thesis
        by (auto simp: t submit_all_Cons results_of_Cons future_result_simps)
    qed
  qed
qed

lemma all_succeed_length:
  assumes "\<forall>t \<in> set ts. \<exists>r. fst (process_single_video (fst t) out (snd t) c) = Inr (Some r)"
  shows "length (results_of (submit_all ts out c)) = length ts"
  using assms
proof (induction ts)
  case Nil
  then show ?case by (simp add: submit_all_def results_of_Nil)
next
  case (Cons t ts)
  obtain p v where t: "t = (p, v)" by (cases t)
  from Cons.prems obtain r where "fst (process_single_video p out v c) = Inr (Some r)"
    by (auto simp: t)
  with Cons show ?case
    by (simp add: t submit_all_Cons results_of_Cons future_result_simps)
qed

lemma length_results_of_le: "length (results_of fs) \<le> length fs"
  by (simp add: results_of_filter)

lemma process_single_video_unopened:
  "\<not> isOpened v \<Longrightarrow>
     process_single_video p out v c = (Inr None, init_state (out @ [env_stem v]) False c)"
  by (simp add: process_single_video_def Let_def)

lemma sum_people_of_tasks:
  "sum_list (map total_unique_people_detected (results_of (submit_all ts out c))) =
     sum_list (map (people_of_task out c) ts)"
proof (induction ts)
  case Nil
  then show ?case by (simp add: submit_all_def results_of_Nil)
next
  case (Cons t ts)
  obtain p v where t: "t = (p, v)" by (cases t)
  show ?case
  proof (cases "fst (process_single_video p out v c)")
    case (Inl e)
    with Cons show ?thesis
      by (simp add: t submit_all_Cons results_of_Cons future_result_simps people_of_task_def)
  next
    case (Inr ro)
    show ?thesis
    proof (cases ro)
      case None
      with Inr Cons show ?thesis
        by (simp add: t submit_all_Cons results_of_Cons future_result_simps people_of_task_def)
    next
      case (Some r)
      with Inr have "total_unique_people_detected r = numbered_count v"
        by (simp add: completed_count)
      with Some Inr Cons show ?thesis
        by (simp add: t submit_all_Cons results_of_Cons future_result_simps people_of_task_def)
    qed
  qed
qed

section \<open>Claims about the counter\<close>


section \<open>Claims about the worker\<close>

text \<open>
  C2, as amended. When the worker returns a result, the detection records are those of the
  recorded events, in the order of the frames, each with the frame number, track id,
  confidence and box of its event; no two records have the same track id, and the track
  ids of the records are those with an accepted event (a qualifying detection whose crop
  is at least 50 by 50). An event is recorded exactly when it is the first accepted event
  of its track id: a qualifying detection with a smaller crop that comes earlier produces
  nothing. A detection whose track id is a key of \<open>tracked_people\<close> leaves the state as
  it is.
\<close>

theorem dedup_first_adequate:
  assumes "fst (process_single_video video_path output_base_dir v c) = Inr (Some r)"
  shows "map record_source (r_detection_results r) =
       map (\<lambda>i. event_source (events v ! i))
         (filter (recorded (events v)) [0..<length (events v)]) \<and>
     distinct (map track_id (r_detection_results r)) \<and>
     set (map track_id (r_detection_results r)) = accepted_ids (events v) \<and>
     (\<forall>i<length (events v).
        recorded (events v) i \<longleftrightarrow>
          accepted (events v ! i) \<and>
          (\<forall>j<i. accepted (events v ! j) \<longrightarrow> ev_tid (events v ! j) \<noteq> ev_tid (events v ! i))) \<and>
     (\<forall>vname out fr st b tid.
        tid \<in> set (map fst (tracked_people st)) \<longrightarrow>
          box_body vname out fr st (b, tid) = Inr st)"
proof -
  let ?es = "events v"
  from completed_history [OF assms] obtain st where
    h: "history_inv ?es st" and recs: "r_detection_results r = detection_results st"
    by blast
  have src: "map record_source (r_detection_results r) =
      map (\<lambda>i. event_source (?es ! i)) (filter (recorded ?es) [0..<length ?es])"
    using h by (simp add: history_inv_def recs)
  have "map track_id (r_detection_results r) =
      map (fst \<circ> snd) (map record_source (r_detection_results r))"
    by (simp add: track_id_record_source)
  also have "\<dots> = map (\<lambda>i. ev_tid (?es ! i)) (filter (recorded ?es) [0..<length ?es])"
    unfolding src by (simp add: ev_tid_event_source)
  finally have tids: "map track_id (r_detection_results r) =
      map (\<lambda>i. ev_tid (?es ! i)) (filter (recorded ?es) [0..<length ?es])" .
  have d: "distinct (map track_id (r_detection_results r))"
    unfolding tids by (rule recorded_tids_distinct)
  have k: "set (map track_id (r_detection_results r)) = accepted_ids ?es"
    using h by (simp add: history_inv_def recs)
  have f: "\<forall>i<length ?es. recorded ?es i \<longleftrightarrow>
      accepted (?es ! i) \<and> (\<forall>j<i. accepted (?es ! j) \<longrightarrow> ev_tid (?es ! j) \<noteq> ev_tid (?es ! i))"
    using recorded_iff_first [of _ ?es] by blast
  have skip: "\<forall>vname out fr st b tid.
      tid \<in> set (map fst (tracked_people st)) \<longrightarrow> box_body vname out fr st (b, tid) = Inr st"
    using box_body_known by blast
  from src d k f skip show ?thesis by blast
qed

text \<open>
  The theorem on \<open>small_then_big\<close>: one record for track 7, from the event of frame 20.
\<close>

theorem dedup_first_adequate_witness:
  "fst (process_single_video ''a.mp4'' [''out''] small_then_big init_counter) =
     Inr (Some small_then_big_result) \<and>
   map record_source (r_detection_results small_then_big_result) =
     map (\<lambda>i. event_source (events small_then_big ! i))
       (filter (recorded (events small_then_big)) [0..<length (events small_then_big)]) \<and>
   distinct (map track_id (r_detection_results small_then_big_result)) \<and>
   set (map track_id (r_detection_results small_then_big_result)) =
     accepted_ids (events small_then_big)"
proof -
  have h: "fst (process_single_video ''a.mp4'' [''out''] small_then_big init_counter) =
      Inr (Some small_then_big_result)"
    by code_simp
  from dedup_first_adequate [OF h] h show ?thesis by blast
qed

text \<open>
  C2 as stated fails on \<open>small_then_big\<close>. Track 7 qualifies on the sampled frames 10
  and 20; the record made for it is sourced from frame 20, not from its first qualifying
  occurrence on frame 10.
\<close>

theorem first_qualifying_not_recorded:
  "map (\<lambda>e. (ev_frame e, ev_tid e, qualifies e)) (events small_then_big) =
     [(10, 7, True), (20, 7, True)] \<and>
   fst (process_single_video ''a.mp4'' [''out''] small_then_big init_counter) =
     Inr (Some small_then_big_result) \<and>
   map first_detected_frame (r_detection_results small_then_big_result) = [20]"
  by code_simp

text \<open>
  C3. A detection that qualifies (class person, confidence above 0.4), whose track id is
  not a key of \<open>tracked_people\<close> and whose crop has fewer than 50 rows or fewer than 50
  columns, raises nothing, adds no detection record, writes no file and leaves
  \<open>tracked_people\<close> as it is, so the track id is still not a key; a local and a global
  person number are spent on it. From the state it leaves, a later qualifying detection of
  the same track id with an adequate crop (the t-shirt model answering) is processed anew:
  it yields a record for the track id and makes it a key.
\<close>

theorem small_crop_rejected:
  assumes conf: "conf b > 0.4" and cls: "cls b = 0"
    and new: "tid \<notin> set (map fst (tracked_people s))"
    and small: "fst (roi_shape fr (xyxy b)) < 50 \<or> snd (roi_shape fr (xyxy b)) < 50"
  shows "\<exists>s'. box_body vname out fr s (b, tid) = Inr s' \<and>
     detection_results s' = detection_results s \<and>
     written s' = written s \<and>
     tracked_people s' = tracked_people s \<and>
     tid \<notin> set (map fst (tracked_people s')) \<and>
     local_person_count s' = local_person_count s + 1 \<and>
     issued s' = issued s @ [issue s b] \<and>
     (\<forall>fr2 b2 r2 rs2.
        conf b2 > 0.4 \<and> cls b2 = 0 \<and>
        50 \<le> fst (roi_shape fr2 (xyxy b2)) \<and> 50 \<le> snd (roi_shape fr2 (xyxy b2)) \<and>
        env_tshirt b2 = Inr (r2 # rs2) \<longrightarrow>
        (\<exists>s2. box_body vname out fr2 s' (b2, tid) = Inr s2 \<and>
           map track_id (detection_results s2) = map track_id (detection_results s') @ [tid] \<and>
           tid \<in> set (map fst (tracked_people s2))))"
proof -
  let ?s' = "s\<lparr>local_person_count := local_person_count s + 1,
            counter := (others_increment (env_others b) (counter s))\<lparr>c_value := issue s b\<rparr>,
            issued := issued s @ [issue s b]\<rparr>"
  have q: "qualifies (0, fr, b, tid)"
    using conf cls by (simp add: qualifies_def)
  have na: "\<not> adequate (0, fr, b, tid)"
    using small by (auto simp: adequate_def)
  have run: "box_body vname out fr s (b, tid) = Inr ?s'"
    using q new na by (rule box_body_rejected)
  have new': "tid \<notin> set (map fst (tracked_people ?s'))"
    using new by simp
  have again: "\<exists>s2. box_body vname out fr2 ?s' (b2, tid) = Inr s2 \<and>
      map track_id (detection_results s2) = map track_id (detection_results ?s') @ [tid] \<and>
      tid \<in> set (map fst (tracked_people s2))"
    if b2: "conf b2 > 0.4 \<and> cls b2 = 0 \<and>
        50 \<le> fst (roi_shape fr2 (xyxy b2)) \<and> 50 \<le> snd (roi_shape fr2 (xyxy b2)) \<and>
        env_tshirt b2 = Inr (r2 # rs2)"
    for fr2 b2 r2 rs2
  proof -
    have q2: "qualifies (0, fr2, b2, tid)"
      using b2 by (simp add: qualifies_def)
    have a2: "adequate (0, fr2, b2, tid)"
      using b2 by (simp add: adequate_def)
    have t2: "env_tshirt b2 = Inr (r2 # rs2)"
      using b2 by simp
    from box_body_accepts [OF q2 new' a2 t2] obtain s2 where
      s2: "box_body vname out fr2 ?s' (b2, tid) = Inr s2" ..
    from box_body_accepted_record [OF q2 new' a2 s2] s2 show ?thesis
      by (intro exI [of _ s2] conjI) (elim conjE, assumption)+
  qed
  have unchanged: "detection_results ?s' = detection_results s"
    "written ?s' = written s" "tracked_people ?s' = tracked_people s"
    "local_person_count ?s' = local_person_count s + 1"
    "issued ?s' = issued s @ [issue s b]"
    by simp_all
  have later: "\<forall>fr2 b2 r2 rs2.
        conf b2 > 0.4 \<and> cls b2 = 0 \<and>
        50 \<le> fst (roi_shape fr2 (xyxy b2)) \<and> 50 \<le> snd (roi_shape fr2 (xyxy b2)) \<and>
        env_tshirt b2 = Inr (r2 # rs2) \<longrightarrow>
        (\<exists>s2. box_body vname out fr2 ?s' (b2, tid) = Inr s2 \<and>
           map track_id (detection_results s2) = map track_id (detection_results ?s') @ [tid] \<and>
           tid \<in> set (map fst (tracked_people s2)))"
    by (intro allI impI) (rule again)
  show ?thesis
    by (rule exI [of _ ?s'])
      (rule conjI [OF run conjI [OF unchanged(1) conjI [OF unchanged(2)
        conjI [OF unchanged(3) conjI [OF new' conjI [OF unchanged(4)
        conjI [OF unchanged(5) later]]]]]]])
qed

text \<open>
  The theorem on the detection of frame 10 of \<open>small_then_big\<close>, from the state before
  the first frame.
\<close>

theorem small_crop_rejected_witness:
  "conf (person_box (100, 100, 120, 300)) > 0.4 \<and>
   cls (person_box (100, 100, 120, 300)) = 0 \<and>
   7 \<notin> set (map fst (tracked_people (init_state [''out'', ''a''] True init_counter))) \<and>
   (fst (roi_shape blank (xyxy (person_box (100, 100, 120, 300)))) < 50 \<or>
    snd (roi_shape blank (xyxy (person_box (100, 100, 120, 300)))) < 50) \<and>
   (\<exists>s'. box_body ''a'' [''out'', ''a''] blank (init_state [''out'', ''a''] True init_counter)
          (person_box (100, 100, 120, 300), 7) = Inr s' \<and>
      detection_results s' = detection_results (init_state [''out'', ''a''] True init_counter) \<and>
      written s' = written (init_state [''out'', ''a''] True init_counter) \<and>
      tracked_people s' = tracked_people (init_state [''out'', ''a''] True init_counter) \<and>
      7 \<notin> set (map fst (tracked_people s')))"
proof -
  let ?b = "person_box (100, 100, 120, 300)"
  let ?s = "init_state [''out'', ''a''] True init_counter"
  have h1: "conf ?b > 0.4" by (simp add: person_box_def)
  have h2: "cls ?b = 0" by (simp add: person_box_def)
  have h3: "7 \<notin> set (map fst (tracked_people ?s))" by (simp add: init_state_def)
  have h4: "fst (roi_shape blank (xyxy ?b)) < 50 \<or> snd (roi_shape blank (xyxy ?b)) < 50"
    by code_simp
  note t = small_crop_rejected [OF h1 h2 h3 h4, of "''a''" "[''out'', ''a'']"]
  from t have c: "\<exists>s'. box_body ''a'' [''out'', ''a''] blank ?s (?b, 7) = Inr s' \<and>
      detection_results s' = detection_results ?s \<and>
      written s' = written ?s \<and>
      tracked_people s' = tracked_people ?s \<and>
      7 \<notin> set (map fst (tracked_people s'))"
    by (elim exE conjE) (intro exI conjI, assumption+)
  show ?thesis
    by (rule conjI [OF h1 conjI [OF h2 conjI [OF h3 conjI [OF h4 c]]]])
qed

text \<open>
  C4, as amended. When the worker returns a result, the local person numbers of its
  detection records increase strictly in the order of the records, each is at least 1 and
  at most the reported count of people, and the number of a record is the count of the
  numbered events up to and including its own, rejected ones included. When no numbered
  event of the video is rejected for the size of its crop, the numbers are
  \<open>1, 2, \<dots>, n\<close>.
\<close>

theorem local_numbers_increasing:
  assumes "fst (process_single_video video_path output_base_dir v c) = Inr (Some r)"
  shows "sorted_wrt (<) (map local_person_number (r_detection_results r)) \<and>
     (\<forall>n \<in> set (map local_person_number (r_detection_results r)).
        1 \<le> n \<and> n \<le> total_unique_people_detected r) \<and>
     map local_person_number (r_detection_results r) =
       map (numbered_upto (events v)) (filter (recorded (events v)) [0..<length (events v)]) \<and>
     (filter (rejected (events v)) [0..<length (events v)] = [] \<longrightarrow>
        map local_person_number (r_detection_results r) =
          [1..<Suc (length (r_detection_results r))])"
proof -
  let ?es = "events v"
  let ?ls = "map local_person_number (r_detection_results r)"
  from completed_history [OF assms] obtain st where
    h: "history_inv ?es st" and recs: "r_detection_results r = detection_results st"
    and tot: "total_unique_people_detected r = local_person_count st"
    by blast
  have eq: "?ls = map (numbered_upto ?es) (filter (recorded ?es) [0..<length ?es])"
    using h by (simp add: history_inv_def recs)
  have cnt: "total_unique_people_detected r = length (filter (numbered ?es) [0..<length ?es])"
    using h by (simp add: history_inv_def tot)
  have srt: "sorted_wrt (<) ?ls"
    unfolding eq by (rule numbered_upto_sorted)
  have bnd: "\<forall>n \<in> set ?ls. 1 \<le> n \<and> n \<le> total_unique_people_detected r"
  proof
    fix n assume "n \<in> set ?ls"
    then obtain i where i: "i < length ?es" "recorded ?es i" "n = numbered_upto ?es i"
      unfolding eq by auto
    from i(2) have "numbered ?es i" by (simp add: recorded_def)
    with i(1,3) numbered_upto_pos [of ?es i] numbered_upto_le [of i "length ?es" ?es] cnt
    show "1 \<le> n \<and> n \<le> total_unique_people_detected r" by simp
  qed
  have dense: "filter (rejected ?es) [0..<length ?es] = [] \<longrightarrow>
      ?ls = [1..<Suc (length (r_detection_results r))]"
  proof
    assume "filter (rejected ?es) [0..<length ?es] = []"
    then have same: "filter (recorded ?es) [0..<length ?es] = filter (numbered ?es) [0..<length ?es]"
      by (rule no_rejected_recorded)
    have "?ls = map (\<lambda>i. length (filter (numbered ?es) [0..<Suc i]))
        (filter (numbered ?es) [0..<length ?es])"
      unfolding eq same by (simp add: numbered_upto_def [abs_def])
    also have "\<dots> = [1..<Suc (length (filter (numbered ?es) [0..<length ?es]))]"
      by (rule positions_of_filter)
    also have "length (filter (numbered ?es) [0..<length ?es]) = length ?ls"
      unfolding eq same by simp
    finally show "?ls = [1..<Suc (length (r_detection_results r))]" by simp
  qed
  from srt bnd eq dense show ?thesis by blast
qed

text \<open>The theorem on \<open>two_people\<close>, where nothing is rejected: the numbers are 1 and 2.\<close>

theorem local_numbers_increasing_witness:
  "fst (process_single_video ''b.mp4'' [''out''] two_people init_counter) =
     Inr (Some two_people_result) \<and>
   filter (rejected (events two_people)) [0..<length (events two_people)] = [] \<and>
   sorted_wrt (<) (map local_person_number (r_detection_results two_people_result)) \<and>
   map local_person_number (r_detection_results two_people_result) =
     [1..<Suc (length (r_detection_results two_people_result))]"
proof -
  have h: "fst (process_single_video ''b.mp4'' [''out''] two_people init_counter) =
      Inr (Some two_people_result)"
    by code_simp
  have n: "filter (rejected (events two_people)) [0..<length (events two_people)] = []"
    by code_simp
  from local_numbers_increasing [OF h] h n show ?thesis by blast
qed

text \<open>
  C4 as stated fails on \<open>small_then_big\<close>: number 1 is spent on the rejected detection
  of frame 10, and the first (and only) record carries local person number 2.
\<close>

theorem first_record_not_local_one:
  "fst (process_single_video ''a.mp4'' [''out''] small_then_big init_counter) =
     Inr (Some small_then_big_result) \<and>
   map local_person_number (r_detection_results small_then_big_result) = [2]"
  by code_simp

text \<open>
  C5. When the worker returns a result, the count of unique people it reports is the
  number of numbered events of the video: the detections that qualified while their track
  id was not yet deduplicated, those rejected afterwards for the size of their crop
  included. It is the number of detection records plus the number of rejected events, so
  it is at least the number of records. The worker has obtained as many global person
  numbers as it reports people, all different and all above the value the counter had
  when the worker started. A track id none of whose detections is accepted is numbered
  once for each of its qualifying detections. In every run of the orchestrator that
  returns, the total of people is the sum, over the tasks whose worker returned a result,
  of the numbers of numbered events of their videos.
\<close>

theorem people_count_counts_attempts:
  assumes "fst (process_single_video video_path output_base_dir v c) = Inr (Some r)"
  shows "total_unique_people_detected r = numbered_count v \<and>
     total_unique_people_detected r =
       length (r_detection_results r) +
       length (filter (rejected (events v)) [0..<length (events v)]) \<and>
     length (r_detection_results r) \<le> total_unique_people_detected r \<and>
     length (issued (snd (process_single_video video_path output_base_dir v c))) =
       total_unique_people_detected r \<and>
     distinct (issued (snd (process_single_video video_path output_base_dir v c))) \<and>
     (\<forall>g \<in> set (issued (snd (process_single_video video_path output_base_dir v c))).
        c_value c < g) \<and>
     (\<forall>tid. tid \<notin> accepted_ids (events v) \<longrightarrow>
        length (filter (\<lambda>i. numbered (events v) i \<and> ev_tid (events v ! i) = tid)
          [0..<length (events v)]) =
        length (filter (\<lambda>e. qualifies e \<and> ev_tid e = tid) (events v))) \<and>
     (\<forall>tasks max_workers cpu_count cr.
        process_multiple_videos tasks max_workers output_base_dir cpu_count c = Inr cr \<longrightarrow>
        total_people_detected_across_all_videos cr =
          sum_list (map (people_of_task output_base_dir c) tasks))"
proof (rule completed_history [OF assms])
  fix st
  let ?es = "events v"
  let ?run = "process_single_video video_path output_base_dir v c"
  assume h: "history_inv ?es st"
    and g: "issued_inv (c_value c) st"
    and recs: "r_detection_results r = detection_results st"
    and tot: "total_unique_people_detected r = local_person_count st"
    and iss: "issued (snd ?run) = issued st"
  have cnt: "total_unique_people_detected r = numbered_count v"
    using assms by (rule completed_count)
  have "length (map record_source (r_detection_results r)) =
      length (map (\<lambda>i. event_source (?es ! i)) (filter (recorded ?es) [0..<length ?es]))"
    using h by (simp only: history_inv_def recs)
  then have len: "length (r_detection_results r) =
      length (filter (recorded ?es) [0..<length ?es])"
    by simp
  have split: "total_unique_people_detected r =
      length (r_detection_results r) + length (filter (rejected ?es) [0..<length ?es])"
    unfolding cnt len numbered_count_def by (rule numbered_split)
  then have le: "length (r_detection_results r) \<le> total_unique_people_detected r"
    by simp
  have n: "length (issued (snd ?run)) = total_unique_people_detected r"
    using h by (simp add: history_inv_def iss tot)
  have "sorted_wrt (<) (issued st)"
    using g by (simp add: issued_inv_def)
  then have d: "distinct (issued (snd ?run))"
    by (simp add: strict_sorted_iff iss)
  have above: "\<forall>g \<in> set (issued (snd ?run)). c_value c < g"
    using g by (simp add: issued_inv_def iss)
  have k: "\<forall>tid. tid \<notin> accepted_ids ?es \<longrightarrow>
      length (filter (\<lambda>i. numbered ?es i \<and> ev_tid (?es ! i) = tid) [0..<length ?es]) =
      length (filter (\<lambda>e. qualifies e \<and> ev_tid e = tid) ?es)"
    by (intro allI impI) (rule numbered_of_unaccepted)
  have total: "total_people_detected_across_all_videos cr =
      sum_list (map (people_of_task output_base_dir c) tasks)"
    if cr: "process_multiple_videos tasks max_workers output_base_dir cpu_count c = Inr cr"
    for tasks max_workers cpu_count cr
  proof -
    have "total_people_detected_across_all_videos cr =
        sum_list (map total_unique_people_detected
          (results_of (as_completed (submit_all tasks output_base_dir c))))"
      using process_multiple_videos_Inr(4) [OF cr] process_multiple_videos_Inr(1) [OF cr]
      by simp
    also have "\<dots> = sum_list (map total_unique_people_detected
        (results_of (submit_all tasks output_base_dir c)))"
      by (rule sum_results_as_completed)
    also have "\<dots> = sum_list (map (people_of_task output_base_dir c) tasks)"
      by (rule sum_people_of_tasks)
    finally show ?thesis .
  qed
  have flows: "\<forall>tasks max_workers cpu_count cr.
      process_multiple_videos tasks max_workers output_base_dir cpu_count c = Inr cr \<longrightarrow>
      total_people_detected_across_all_videos cr =
        sum_list (map (people_of_task output_base_dir c) tasks)"
    by (intro allI impI) (rule total)
  show ?thesis
    by (rule conjI [OF cnt conjI [OF split conjI [OF le conjI [OF n conjI [OF d
          conjI [OF above conjI [OF k flows]]]]]]])
qed

text \<open>
  The theorem on \<open>small_then_big\<close>: two people reported, one detection record, one
  rejected event, global person numbers 1 and 2 obtained.
\<close>

theorem people_count_counts_attempts_witness:
  "fst (process_single_video ''a.mp4'' [''out''] small_then_big init_counter) =
     Inr (Some small_then_big_result) \<and>
   total_unique_people_detected small_then_big_result = numbered_count small_then_big \<and>
   total_unique_people_detected small_then_big_result = 2 \<and>
   length (r_detection_results small_then_big_result) = 1 \<and>
   length (filter (rejected (events small_then_big)) [0..<length (events small_then_big)]) = 1 \<and>
   issued (snd (process_single_video ''a.mp4'' [''out''] small_then_big init_counter)) = [1, 2]"
proof -
  have h: "fst (process_single_video ''a.mp4'' [''out''] small_then_big init_counter) =
      Inr (Some small_then_big_result)"
    by code_simp
  have a: "total_unique_people_detected small_then_big_result = 2"
    by (simp add: small_then_big_result_def)
  have b: "length (r_detection_results small_then_big_result) = 1"
    by (simp add: small_then_big_result_def)
  have c: "length (filter (rejected (events small_then_big))
      [0..<length (events small_then_big)]) = 1"
    by code_simp
  have d: "issued (snd (process_single_video ''a.mp4'' [''out''] small_then_big init_counter)) =
      [1, 2]"
    by code_simp
  show ?thesis
    by (rule conjI [OF h conjI [OF people_count_counts_attempts [OF h, THEN conjunct1]
          conjI [OF a conjI [OF b conjI [OF c d]]]]])
qed

text \<open>
  C8, as amended. When the worker returns, no video stream is open: after the last frame
  it releases the stream before it assembles the result, and a worker whose video did not
  open holds no stream. When the worker leaves by a fault raised in the frame loop, the
  stream it opened is still open.
\<close>

theorem stream_released_on_return:
  "stream_open (snd (process_single_video video_path output_base_dir v c)) =
     (case fst (process_single_video video_path output_base_dir v c) of
        Inl e \<Rightarrow> True
      | Inr r \<Rightarrow> False)"
proof (cases "isOpened v")
  case False
  then show ?thesis
    by (simp add: process_single_video_def Let_def init_state_def)
next
  case True
  let ?d = "output_base_dir @ [env_stem v]"
  let ?loop = "frames_loop (env_stem v) ?d (total_frames v) (init_state ?d (isOpened v) c)
      (frames v)"
  have open0: "stream_open (final ?loop) = True"
    using frames_loop_stream_open [of "env_stem v" ?d "total_frames v"
        "init_state ?d (isOpened v) c" "frames v"] True
    by (simp add: init_state_def)
  show ?thesis
  proof (cases ?loop)
    case (Inl x)
    obtain e s where x: "x = (e, s)" by (cases x)
    from open0 Inl x have "stream_open s" by (simp add: final_def)
    with True Inl x show ?thesis
      by (simp add: process_single_video_def Let_def)
  next
    case (Inr s)
    with True show ?thesis
      by (simp add: process_single_video_def Let_def)
  qed
qed

text \<open>
  C8 as stated fails on \<open>tracker_fails\<close>: the tracker raises on frame 10, the fault
  leaves the worker, and the stream is left open.
\<close>

theorem stream_left_open:
  "fst (process_single_video ''c.mp4'' [''out''] tracker_fails init_counter) = Inl TrackFault \<and>
   stream_open (snd (process_single_video ''c.mp4'' [''out''] tracker_fails init_counter))"
  by code_simp



section \<open>Claims about the orchestrator\<close>

text \<open>
  C6. Among the tasks, the worker of \<open>(p, v)\<close> raises a fault and the workers of all the
  others return a result (the number of workers, when the caller gives one, being
  positive). Then \<open>process_multiple_videos\<close> returns a combined result: it reports all
  \<open>N\<close> tasks as requested and \<open>N - 1\<close> as processed; its list of results has \<open>N - 1\<close>
  elements and is the list collected from the other tasks alone, in the order in which
  they settle; and when no other task has the path \<open>p\<close>, no result in the list is
  that of \<open>p\<close>.
\<close>

theorem fault_isolated:
  assumes fault: "fst (process_single_video p out v c) = Inl e"
    and others: "\<forall>t \<in> set (pre @ post).
        \<exists>r. fst (process_single_video (fst t) out (snd t) c) = Inr (Some r)"
    and pool: "\<forall>m. max_workers = Some m \<longrightarrow> 0 < m"
  shows "\<exists>cr. process_multiple_videos (pre @ (p, v) # post) max_workers out cpu_count c = Inr cr \<and>
     total_videos_requested cr = length (pre @ (p, v) # post) \<and>
     total_videos_processed cr = length (pre @ (p, v) # post) - 1 \<and>
     length (individual_video_results cr) = length (pre @ (p, v) # post) - 1 \<and>
     individual_video_results cr = results_of (as_completed (submit_all (pre @ post) out c)) \<and>
     (p \<notin> set (map fst (pre @ post)) \<longrightarrow>
        p \<notin> set (map video_file (individual_video_results cr)))"
proof -
  let ?tasks = "pre @ (p, v) # post"
  have "0 < workers (length ?tasks) max_workers cpu_count"
    using pool by (intro workers_positive) simp_all
  then obtain cr where
    cr: "process_multiple_videos ?tasks max_workers out cpu_count c = Inr cr"
    using process_multiple_videos_returns by blast
  have none: "future_result (p, v, fst (process_single_video p out v c)) = None"
    using fault by (simp add: future_result_simps)
  have ind: "individual_video_results cr =
      results_of (as_completed (submit_all (pre @ post) out c))"
    using process_multiple_videos_Inr(1) [OF cr] failed_task_ignored [OF none] by simp
  have len: "length (individual_video_results cr) = length (pre @ post)"
    unfolding ind length_results_as_completed using others by (rule all_succeed_length)
  have files: "set (map video_file (individual_video_results cr)) \<subseteq> set (map fst (pre @ post))"
    unfolding ind using results_of_video_files [of "pre @ post" out c]
    by (simp add: set_results_as_completed)
  have omit: "p \<notin> set (map fst (pre @ post)) \<longrightarrow>
      p \<notin> set (map video_file (individual_video_results cr))"
    using files by blast
  from cr ind len omit process_multiple_videos_Inr(2,3) [OF cr] show ?thesis
    by auto
qed

text \<open>
  The theorem on two tasks: the tracker raises on the first video, the second yields
  \<open>two_people_result\<close>.
\<close>

theorem fault_isolated_witness:
  "fst (process_single_video ''c.mp4'' [''out''] tracker_fails init_counter) = Inl TrackFault \<and>
   fst (process_single_video ''b.mp4'' [''out''] two_people init_counter) =
     Inr (Some two_people_result) \<and>
   process_multiple_videos [(''c.mp4'', tracker_fails), (''b.mp4'', two_people)] None [''out'']
     (Some 8) init_counter =
     Inr \<lparr>total_videos_processed = 1, total_videos_requested = 2, max_workers_used = 2,
          total_people_detected_across_all_videos = 2,
          individual_video_results = [two_people_result]\<rparr> \<and>
   (\<exists>cr. process_multiple_videos ([] @ (''c.mp4'', tracker_fails) # [(''b.mp4'', two_people)])
       None [''out''] (Some 8) init_counter = Inr cr \<and>
     total_videos_requested cr =
       length ([] @ (''c.mp4'', tracker_fails) # [(''b.mp4'', two_people)]) \<and>
     total_videos_processed cr =
       length ([] @ (''c.mp4'', tracker_fails) # [(''b.mp4'', two_people)]) - 1 \<and>
     length (individual_video_results cr) =
       length ([] @ (''c.mp4'', tracker_fails) # [(''b.mp4'', two_people)]) - 1 \<and>
     individual_video_results cr =
       results_of (as_completed (submit_all ([] @ [(''b.mp4'', two_people)]) [''out'']
         init_counter)) \<and>
     (''c.mp4'' \<notin> set (map fst ([] @ [(''b.mp4'', two_people)])) \<longrightarrow>
        ''c.mp4'' \<notin> set (map video_file (individual_video_results cr))))"
proof -
  have f: "fst (process_single_video ''c.mp4'' [''out''] tracker_fails init_counter) =
      Inl TrackFault"
    by code_simp
  have h: "fst (process_single_video ''b.mp4'' [''out''] two_people init_counter) =
      Inr (Some two_people_result)"
    by code_simp
  have o: "\<forall>t \<in> set ([] @ [(''b.mp4'', two_people)]).
      \<exists>r. fst (process_single_video (fst t) [''out''] (snd t) init_counter) = Inr (Some r)"
    using h by simp
  have p: "\<forall>m. (None :: int option) = Some m \<longrightarrow> 0 < m" by simp
  have e: "process_multiple_videos [(''c.mp4'', tracker_fails), (''b.mp4'', two_people)] None
      [''out''] (Some 8) init_counter =
     Inr \<lparr>total_videos_processed = 1, total_videos_requested = 2, max_workers_used = 2,
          total_people_detected_across_all_videos = 2,
          individual_video_results = [two_people_result]\<rparr>"
    by code_simp
  show ?thesis
    by (rule conjI [OF f conjI [OF h conjI [OF e fault_isolated [OF f o p]]]])
qed

text \<open>
  C7. When the video does not open, the worker returns \<^verbatim>\<open>None\<close> (it raises nothing) in
  the state in which it found the world, but for the output directory made at line 37:
  no file is written, the tracker is not called, the shared counter is untouched and no
  stream is open. Whatever the other tasks are, a run of the orchestrator that returns
  collects exactly what it would collect from the other tasks alone, and reports fewer
  videos processed than requested.
\<close>

theorem open_failure_no_result:
  assumes "\<not> isOpened v"
  shows "process_single_video p out v c = (Inr None, init_state (out @ [env_stem v]) False c) \<and>
     written (snd (process_single_video p out v c)) = [] \<and>
     track_calls (snd (process_single_video p out v c)) = [] \<and>
     counter (snd (process_single_video p out v c)) = c \<and>
     \<not> stream_open (snd (process_single_video p out v c)) \<and>
     (\<forall>pre post max_workers cpu_count cr.
        process_multiple_videos (pre @ (p, v) # post) max_workers out cpu_count c = Inr cr \<longrightarrow>
          individual_video_results cr =
            results_of (as_completed (submit_all (pre @ post) out c)) \<and>
          total_videos_processed cr < total_videos_requested cr)"
proof -
  have run: "process_single_video p out v c =
      (Inr None, init_state (out @ [env_stem v]) False c)"
    using assms by (rule process_single_video_unopened)
  have none: "future_result (p, v, fst (process_single_video p out v c)) = None"
    by (simp add: run future_result_simps)
  have orch: "individual_video_results cr =
        results_of (as_completed (submit_all (pre @ post) out c)) \<and>
      total_videos_processed cr < total_videos_requested cr"
    if cr: "process_multiple_videos (pre @ (p, v) # post) max_workers out cpu_count c = Inr cr"
    for pre post max_workers cpu_count cr
  proof -
    have ind: "individual_video_results cr =
        results_of (as_completed (submit_all (pre @ post) out c))"
      using process_multiple_videos_Inr(1) [OF cr] failed_task_ignored [OF none] by simp
    have "length (individual_video_results cr) \<le> length (pre @ post)"
      unfolding ind length_results_as_completed
      using length_results_of_le [of "submit_all (pre @ post) out c"]
      by (simp add: length_submit_all)
    then have "total_videos_processed cr < total_videos_requested cr"
      using process_multiple_videos_Inr(2,3) [OF cr] by simp
    with ind show ?thesis by simp
  qed
  show ?thesis
    using orch by (simp add: run init_state_def)
qed

text \<open>The theorem on \<open>unopened\<close>, alone and in a run with \<open>two_people\<close>.\<close>

theorem open_failure_no_result_witness:
  "\<not> isOpened unopened \<and>
   process_single_video ''d.mp4'' [''out''] unopened init_counter =
     (Inr None, init_state ([''out''] @ [env_stem unopened]) False init_counter) \<and>
   written (snd (process_single_video ''d.mp4'' [''out''] unopened init_counter)) = [] \<and>
   process_multiple_videos [(''d.mp4'', unopened), (''b.mp4'', two_people)] None [''out'']
     (Some 8) init_counter =
     Inr \<lparr>total_videos_processed = 1, total_videos_requested = 2, max_workers_used = 2,
          total_people_detected_across_all_videos = 2,
          individual_video_results = [two_people_result]\<rparr>"
proof -
  have h: "\<not> isOpened unopened"
    by (simp add: unopened_def)
  note t = open_failure_no_result [OF h, where p = "''d.mp4''" and out = "[''out'']"
      and c = init_counter]
  have e: "process_multiple_videos [(''d.mp4'', unopened), (''b.mp4'', two_people)] None
      [''out''] (Some 8) init_counter =
     Inr \<lparr>total_videos_processed = 1, total_videos_requested = 2, max_workers_used = 2,
          total_people_detected_across_all_videos = 2,
          individual_video_results = [two_people_result]\<rparr>"
    by code_simp
  show ?thesis
    by (rule conjI [OF h conjI [OF t [THEN conjunct1]
          conjI [OF t [THEN conjunct2, THEN conjunct1] e]]])
qed

text \<open>
  C9. In the combined result of a run, the total number of people is the sum of the
  counts of unique people of the results in its list; the list holds the results of the
  tasks that returned one, in the order in which the tasks settled: the same results, and
  as many, as in the order of submission, with the same sum; and the number of videos
  processed is the length of the list.
\<close>

theorem aggregate_sums_people:
  assumes "process_multiple_videos tasks max_workers out cpu_count c = Inr cr"
  shows "total_people_detected_across_all_videos cr =
       sum_list (map total_unique_people_detected (individual_video_results cr)) \<and>
     individual_video_results cr = results_of (as_completed (submit_all tasks out c)) \<and>
     set (individual_video_results cr) = set (results_of (submit_all tasks out c)) \<and>
     length (individual_video_results cr) = length (results_of (submit_all tasks out c)) \<and>
     total_videos_processed cr = length (individual_video_results cr) \<and>
     total_people_detected_across_all_videos cr =
       sum_list (map total_unique_people_detected (results_of (submit_all tasks out c)))"
proof -
  note f = process_multiple_videos_Inr [OF assms]
  have s: "set (individual_video_results cr) = set (results_of (submit_all tasks out c))"
    unfolding f(1) by (rule set_results_as_completed)
  have l: "length (individual_video_results cr) = length (results_of (submit_all tasks out c))"
    unfolding f(1) by (rule length_results_as_completed)
  have t: "total_people_detected_across_all_videos cr =
      sum_list (map total_unique_people_detected (results_of (submit_all tasks out c)))"
    unfolding f(4) f(1) by (rule sum_results_as_completed)
  show ?thesis
    by (intro conjI) (rule f(4) f(1) s l f(2) t)+
qed

text \<open>
  The theorem on two videos run together, one yielding 2 people and the other 3: the
  total is 5 and the list has 2 results.
\<close>

theorem aggregate_sums_people_witness:
  "process_multiple_videos [(''b.mp4'', two_people), (''e.mp4'', three_people)] None [''out'']
     (Some 8) init_counter = Inr five_people \<and>
   total_people_detected_across_all_videos five_people = 5 \<and>
   length (individual_video_results five_people) = 2 \<and>
   total_people_detected_across_all_videos five_people =
     sum_list (map total_unique_people_detected (individual_video_results five_people))"
proof -
  have h: "process_multiple_videos [(''b.mp4'', two_people), (''e.mp4'', three_people)] None
      [''out''] (Some 8) init_counter = Inr five_people"
    by code_simp
  have a: "total_people_detected_across_all_videos five_people = 5"
    by (simp add: five_people_def)
  have b: "length (individual_video_results five_people) = 2"
    by (simp add: five_people_def)
  show ?thesis
    by (rule conjI [OF h conjI [OF a conjI [OF b
          aggregate_sums_people [OF h, THEN conjunct1]]]])
qed

end
